theory Spec2Isabelle
  imports Complex_Main
begin

section \<open>The animation controller of EcoEvoCRM\<close>

text \<open>
  A shallow embedding of \<^verbatim>\<open>AnimationController\<close>
  (\<^verbatim>\<open>src/ecoevocrm/gui/animation_controller.py\<close>).

  Python floats are modelled as real numbers: comparisons are those of a linear order
  (no NaN) and, except where a rounding operator is written out, arithmetic is exact.
  The insertion loop of \<^verbatim>\<open>add_data_chunk\<close>, whose result depends on how a NaN compares,
  is modelled a second time over floats with the infinities and NaN; on numbers the two
  models agree.
  A lineage identifier is a value of an arbitrary type \<open>'l\<close>; a Python dict
  \<^verbatim>\<open>{lineageID: abundance}\<close> is a map \<open>'l \<rightharpoonup> real\<close>.
  The object's attributes are the fields of a record, and every method takes the record
  and returns the updated one.
\<close>

subsection \<open>Data\<close>

text \<open>
  The attributes \<^verbatim>\<open>_lineage_to_global_idx\<close> and \<^verbatim>\<open>_global_lineage_list\<close> are
  created together, lazily, by the first call of \<^verbatim>\<open>add_multi_type_data_chunk\<close>
  (tested with \<^verbatim>\<open>hasattr\<close>), and so is \<^verbatim>\<open>_multi_type_chunk_count\<close>:
  \<open>None\<close> stands for attributes that do not exist yet.
\<close>

record 'l registry =
  lineage_to_global_idx :: "'l \<rightharpoonup> nat"
  global_lineage_list :: "'l list"

record 'l controller =
  buffer_times :: "real list"
  buffer_biomass :: "real list"
  buffer_N_by_lineage :: "('l \<rightharpoonup> real) list"
  current_lineageIDs :: "'l list"
  mutation_events :: "real list"
  animation_time :: real
  integration_time :: real
  animation_speed :: real
  is_playing :: bool
  last_real_time :: "real option"
  buffer_critical :: real
  buffer_low :: real
  registry :: "'l registry option"
  multi_type_chunk_count :: "nat option"

text \<open>
  The arguments of \<^verbatim>\<open>add_data_chunk\<close>: either one time with one biomass value, or two
  one-dimensional arrays (the \<^verbatim>\<open>isinstance(t_epoch, np.ndarray)\<close> branch).
\<close>

datatype chunk = ScalarChunk real real | ArrayChunk "real list" "real list"

text \<open>
  The time argument of \<^verbatim>\<open>add_multi_type_data_chunk\<close>: a number (or zero-dimensional
  array), or a one-dimensional array.
\<close>

datatype epoch_times = ScalarTime real | ArrayTimes "real list"

text \<open>
  The abundance array \<^verbatim>\<open>N_epoch\<close>: one-dimensional, or two-dimensional with its number
  of columns and its rows.
\<close>

datatype ndarray = Arr1 "real list" | Arr2 nat "real list list"

datatype py_error = IndexError | ZeroDivisionError

subsection \<open>Construction\<close>

definition init :: "real \<Rightarrow> real \<Rightarrow> real \<Rightarrow> 'l controller" where
  "init default_speed critical low =
     \<lparr> buffer_times = [], buffer_biomass = [], buffer_N_by_lineage = [],
       current_lineageIDs = [], mutation_events = [],
       animation_time = 0, integration_time = 0,
       animation_speed = default_speed, is_playing = True, last_real_time = None,
       buffer_critical = critical, buffer_low = low,
       registry = None,
       multi_type_chunk_count = None \<rparr>"

subsection \<open>Sorted insertion\<close>

text \<open>
  \<^verbatim>\<open>bisect.bisect_left(a, x)\<close> of the Python standard library: the binary search
  \<^verbatim>\<open>while lo < hi: mid = (lo + hi) // 2; if a[mid] < x: lo = mid + 1 else: hi = mid\<close>.
\<close>

function bisect_left_loop :: "real list \<Rightarrow> real \<Rightarrow> nat \<Rightarrow> nat \<Rightarrow> nat" where
  "bisect_left_loop a x lo hi =
     (if lo < hi
      then (let mid = (lo + hi) div 2
            in if a ! mid < x then bisect_left_loop a x (mid + 1) hi
               else bisect_left_loop a x lo mid)
      else lo)"
  by pat_completeness auto
termination
  by (relation "measure (\<lambda>(a, x, lo, hi). hi - lo)") auto

declare bisect_left_loop.simps [simp del]

definition bisect_left :: "real list \<Rightarrow> real \<Rightarrow> nat" where
  "bisect_left a x = bisect_left_loop a x 0 (length a)"

text \<open>\<^verbatim>\<open>list.insert(idx, x)\<close> for an index \<open>idx \<ge> 0\<close>; beyond the end it appends.\<close>

definition list_insert :: "nat \<Rightarrow> 'a \<Rightarrow> 'a list \<Rightarrow> 'a list" where
  "list_insert idx x xs = take idx xs @ x # drop idx xs"

subsection \<open>Adding a data chunk\<close>

text \<open>The body of the loop \<^verbatim>\<open>for t, biomass in zip(t_list, biomass_list)\<close>.\<close>

definition insert_point :: "'l controller \<Rightarrow> real \<times> real \<Rightarrow> 'l controller" where
  "insert_point c p =
     (let t = fst p; biomass = snd p
      in if t \<in> set (buffer_times c) then c
         else (let idx = bisect_left (buffer_times c) t
               in c\<lparr> buffer_times := list_insert idx t (buffer_times c),
                     buffer_biomass := list_insert idx biomass (buffer_biomass c),
                     buffer_N_by_lineage := list_insert idx Map.empty (buffer_N_by_lineage c) \<rparr>))"

fun chunk_lists :: "chunk \<Rightarrow> real list \<times> real list" where
  "chunk_lists (ArrayChunk t_epoch biomass_epoch) = (t_epoch, biomass_epoch)"
| "chunk_lists (ScalarChunk t_epoch biomass_epoch) = ([t_epoch], [biomass_epoch])"

definition update_integration_time :: "'l controller \<Rightarrow> 'l controller" where
  "update_integration_time c =
     (if length (buffer_times c) > 0 then c\<lparr> integration_time := last (buffer_times c) \<rparr>
      else c)"

text \<open>
  The pairs to insert: the two lists, cut to the shorter length if their lengths differ,
  and zipped.
\<close>

definition chunk_points :: "chunk \<Rightarrow> (real \<times> real) list" where
  "chunk_points ch =
     (let (t_list0, biomass_list0) = chunk_lists ch;
          (t_list, biomass_list) =
             (if length t_list0 \<noteq> length biomass_list0
              then (let min_len = min (length t_list0) (length biomass_list0)
                    in (take min_len t_list0, take min_len biomass_list0))
              else (t_list0, biomass_list0))
      in zip t_list biomass_list)"

definition add_data_chunk :: "chunk \<Rightarrow> 'l controller \<Rightarrow> 'l controller" where
  "add_data_chunk ch c = update_integration_time (foldl insert_point c (chunk_points ch))"

subsection \<open>Playback control\<close>

definition play :: "'l controller \<Rightarrow> 'l controller" where
  "play c = c\<lparr> is_playing := True \<rparr>"

definition pause :: "'l controller \<Rightarrow> 'l controller" where
  "pause c = c\<lparr> is_playing := False \<rparr>"

definition set_speed :: "real \<Rightarrow> 'l controller \<Rightarrow> 'l controller" where
  "set_speed speed c = c\<lparr> animation_speed := max (1 / 10) (min speed 10) \<rparr>"

definition reset :: "'l controller \<Rightarrow> 'l controller" where
  "reset c = c\<lparr> buffer_times := [], buffer_biomass := [], buffer_N_by_lineage := [],
                 current_lineageIDs := [], mutation_events := [],
                 animation_time := 0, integration_time := 0,
                 is_playing := True, last_real_time := None \<rparr>"

subsection \<open>Speed factor\<close>

definition get_speed_factor :: "'l controller \<Rightarrow> real" where
  "get_speed_factor c =
     (let buffer_gap = integration_time c - animation_time c
      in if buffer_gap < buffer_critical c then 1 / 10
         else if buffer_gap < buffer_low c
         then (let proportion = (buffer_gap - buffer_critical c) / (buffer_low c - buffer_critical c)
               in 1 / 10 + 9 / 10 * proportion)
         else 1)"

subsection \<open>Scalar interpolation and the next frame\<close>

text \<open>
  \<^verbatim>\<open>_interpolate_biomass\<close> returns a number and may shorten the two buffers (the defensive
  length-mismatch branch), so the model returns the value and the controller.
\<close>

definition interpolate_biomass :: "real \<Rightarrow> 'l controller \<Rightarrow> real \<times> 'l controller" where
  "interpolate_biomass t c =
     (if length (buffer_times c) = 0 \<or> length (buffer_biomass c) = 0 then (0, c)
      else
        (let c1 = (if length (buffer_times c) \<noteq> length (buffer_biomass c)
                   then (let min_len = min (length (buffer_times c)) (length (buffer_biomass c))
                         in c\<lparr> buffer_times := take min_len (buffer_times c),
                               buffer_biomass := take min_len (buffer_biomass c) \<rparr>)
                   else c)
         in if t \<le> buffer_times c1 ! 0 then (buffer_biomass c1 ! 0, c1)
            else if t \<ge> last (buffer_times c1) then (last (buffer_biomass c1), c1)
            else (let idx = bisect_left (buffer_times c1) t;
                      t0 = buffer_times c1 ! (idx - 1);
                      t1 = buffer_times c1 ! idx;
                      y0 = buffer_biomass c1 ! (idx - 1);
                      y1 = buffer_biomass c1 ! idx
                  in if t1 = t0 then (y0, c1)
                     else (let alpha = (t - t0) / (t1 - t0)
                           in (y0 + alpha * (y1 - y0), c1)))))"

definition get_next_frame :: "real \<Rightarrow> 'l controller \<Rightarrow> (real \<times> real) option \<times> 'l controller" where
  "get_next_frame real_time_delta c =
     (if \<not> is_playing c then (None, c)
      else if length (buffer_times c) = 0 then (None, c)
      else
        (let speed_factor = get_speed_factor c;
             delta_anim_time = real_time_delta * animation_speed c * speed_factor;
             c1 = c\<lparr> animation_time := animation_time c + delta_anim_time \<rparr>;
             c2 = (if animation_time c1 > integration_time c1
                   then c1\<lparr> animation_time := integration_time c1 \<rparr> else c1);
             (biomass, c3) = interpolate_biomass (animation_time c2) c2
         in (Some (animation_time c3, biomass), c3)))"

subsection \<open>Adding a multi-type data chunk\<close>

text \<open>The body of \<^verbatim>\<open>for lid in lineageIDs\<close> that extends the global registry.\<close>

definition register_lineage :: "'l registry \<Rightarrow> 'l \<Rightarrow> 'l registry" where
  "register_lineage reg lid =
     (if lid \<notin> dom (lineage_to_global_idx reg)
      then (let global_idx = length (global_lineage_list reg)
            in \<lparr> lineage_to_global_idx = (lineage_to_global_idx reg)(lid \<mapsto> global_idx),
                 global_lineage_list = global_lineage_list reg @ [lid] \<rparr>)
      else reg)"

definition empty_registry :: "'l registry" where
  "empty_registry = \<lparr> lineage_to_global_idx = Map.empty, global_lineage_list = [] \<rparr>"

fun shape0 :: "ndarray \<Rightarrow> nat" where
  "shape0 (Arr1 xs) = length xs"
| "shape0 (Arr2 ncols rows) = length rows"

text \<open>\<^verbatim>\<open>N_epoch[r, j]\<close> for \<open>j \<ge> 0\<close>, and \<^verbatim>\<open>N_epoch[r, -1]\<close>.\<close>

definition elem2 :: "nat \<Rightarrow> real list list \<Rightarrow> nat \<Rightarrow> nat \<Rightarrow> py_error + real" where
  "elem2 ncols rows r j =
     (if r < length rows \<and> j < ncols \<and> j < length (rows ! r) then Inr (rows ! r ! j)
      else Inl IndexError)"

definition elem2_last :: "nat \<Rightarrow> real list list \<Rightarrow> nat \<Rightarrow> py_error + real" where
  "elem2_last ncols rows r = (if ncols = 0 then Inl IndexError else elem2 ncols rows r (ncols - 1))"

text \<open>The abundance read inside the \<^verbatim>\<open>try\<close> block, for type \<open>type_idx\<close> and time index \<open>i\<close>.\<close>

fun read_abundance :: "ndarray \<Rightarrow> nat \<Rightarrow> nat \<Rightarrow> py_error + real" where
  "read_abundance (Arr2 ncols rows) type_idx i =
     (if i < ncols then elem2 ncols rows type_idx i else elem2_last ncols rows type_idx)"
| "read_abundance (Arr1 xs) type_idx i =
     (if type_idx < length xs then Inr (xs ! type_idx) else Inl IndexError)"

text \<open>\<^verbatim>\<open>self.buffer_N_by_lineage[idx][lineage_id] = v\<close>.\<close>

definition store_abundance ::
  "nat \<Rightarrow> 'l \<Rightarrow> real \<Rightarrow> ('l \<rightharpoonup> real) list \<Rightarrow> py_error + ('l \<rightharpoonup> real) list" where
  "store_abundance idx lineage_id v Ns =
     (if idx < length Ns then Inr (Ns[idx := (Ns ! idx)(lineage_id \<mapsto> v)]) else Inl IndexError)"

text \<open>
  The body of \<^verbatim>\<open>for type_idx, lineage_id in enumerate(lineageIDs)\<close>: an IndexError of
  the \<^verbatim>\<open>try\<close> block is caught and 0.0 is stored instead; an IndexError of that second
  store is not caught.
\<close>

definition set_abundance ::
  "ndarray \<Rightarrow> nat \<Rightarrow> nat \<Rightarrow> ('l \<rightharpoonup> real) list \<Rightarrow> nat \<times> 'l \<Rightarrow> py_error + ('l \<rightharpoonup> real) list" where
  "set_abundance N_epoch i idx Ns p =
     (let type_idx = fst p; lineage_id = snd p
      in if type_idx < shape0 N_epoch
         then (case read_abundance N_epoch type_idx i of
                 Inl e \<Rightarrow> store_abundance idx lineage_id 0 Ns
               | Inr abundance \<Rightarrow>
                   (case store_abundance idx lineage_id abundance Ns of
                      Inl e \<Rightarrow> store_abundance idx lineage_id 0 Ns
                    | Inr Ns' \<Rightarrow> Inr Ns'))
         else Inr Ns)"

text \<open>A loop whose body may raise: the first error ends it.\<close>

fun fold_err :: "('s \<Rightarrow> 'a \<Rightarrow> py_error + 's) \<Rightarrow> 's \<Rightarrow> 'a list \<Rightarrow> py_error + 's" where
  "fold_err f s [] = Inr s"
| "fold_err f s (x # xs) = (case f s x of Inl e \<Rightarrow> Inl e | Inr s' \<Rightarrow> fold_err f s' xs)"

text \<open>\<^verbatim>\<open>list.index(t)\<close> for an element that occurs in the list.\<close>

definition index_of :: "'a list \<Rightarrow> 'a \<Rightarrow> nat" where
  "index_of xs t = length (takeWhile (\<lambda>x. x \<noteq> t) xs)"

text \<open>The body of \<^verbatim>\<open>for i, t in enumerate(t_list)\<close>.\<close>

definition store_epoch_time ::
  "ndarray \<Rightarrow> 'l list \<Rightarrow> real list \<Rightarrow> ('l \<rightharpoonup> real) list \<Rightarrow> nat \<times> real
     \<Rightarrow> py_error + ('l \<rightharpoonup> real) list" where
  "store_epoch_time N_epoch lineageIDs btimes Ns p =
     (let i = fst p; t = snd p
      in if t \<notin> set btimes then Inr Ns
         else (let idx = index_of btimes t
               in fold_err (set_abundance N_epoch i idx) Ns (enumerate 0 lineageIDs)))"

text \<open>
  \<^verbatim>\<open>add_multi_type_data_chunk\<close>, block by block. First the global registry is created if
  absent and extended with the lineage identifiers as given.
\<close>

definition update_registry :: "'l list \<Rightarrow> 'l controller \<Rightarrow> 'l controller" where
  "update_registry lineageIDs c =
     (let reg0 = (case registry c of None \<Rightarrow> empty_registry | Some reg \<Rightarrow> reg)
      in c\<lparr> registry := Some (foldl register_lineage reg0 lineageIDs) \<rparr>)"

text \<open>The list of times, cut to the number of columns of \<^verbatim>\<open>N_epoch\<close>.\<close>

definition epoch_t_list :: "epoch_times \<Rightarrow> ndarray \<Rightarrow> real list" where
  "epoch_t_list t_epoch N_epoch =
     (let t_list = (case t_epoch of ArrayTimes ts \<Rightarrow> ts | ScalarTime t \<Rightarrow> [t]);
          expected_time_points = (case N_epoch of Arr2 ncols rows \<Rightarrow> ncols | Arr1 xs \<Rightarrow> 1)
      in if length t_list \<noteq> expected_time_points
         then (let min_len = min (length t_list) expected_time_points in take min_len t_list)
         else t_list)"

text \<open>The lineage identifiers, cut to the number of rows of \<^verbatim>\<open>N_epoch\<close>.\<close>

definition epoch_lineageIDs :: "ndarray \<Rightarrow> 'l list \<Rightarrow> 'l list" where
  "epoch_lineageIDs N_epoch lineageIDs =
     (if shape0 N_epoch \<noteq> length lineageIDs
      then (let min_types = min (shape0 N_epoch) (length lineageIDs) in take min_types lineageIDs)
      else lineageIDs)"

text \<open>Detection of a mutation event, then \<^verbatim>\<open>self.current_lineageIDs = list(lineageIDs)\<close>.\<close>

definition detect_mutation :: "real list \<Rightarrow> 'l list \<Rightarrow> 'l controller \<Rightarrow> 'l controller" where
  "detect_mutation t_list lineageIDs c =
     (let prev_num_types = length (current_lineageIDs c);
          new_num_types = length lineageIDs;
          c1 = (if new_num_types > prev_num_types \<and> length t_list > 0
                then c\<lparr> mutation_events := mutation_events c @ [last t_list] \<rparr>
                else c)
      in c1\<lparr> current_lineageIDs := lineageIDs \<rparr>)"

text \<open>The chunk counter of the diagnostic output.\<close>

definition count_chunk :: "'l controller \<Rightarrow> 'l controller" where
  "count_chunk c =
     (let count = (case multi_type_chunk_count c of None \<Rightarrow> 0 | Some n \<Rightarrow> n)
      in c\<lparr> multi_type_chunk_count := Some (count + 1) \<rparr>)"

definition add_multi_type_data_chunk ::
  "epoch_times \<Rightarrow> ndarray \<Rightarrow> 'l list \<Rightarrow> 'l controller \<Rightarrow> py_error + 'l controller" where
  "add_multi_type_data_chunk t_epoch N_epoch lineageIDs0 c =
     (let c1 = update_registry lineageIDs0 c;
          t_list = epoch_t_list t_epoch N_epoch;
          lineageIDs = epoch_lineageIDs N_epoch lineageIDs0;
          c2 = detect_mutation t_list lineageIDs c1
      in case fold_err (store_epoch_time N_epoch lineageIDs (buffer_times c2))
                (buffer_N_by_lineage c2) (enumerate 0 t_list) of
           Inl e \<Rightarrow> Inl e
         | Inr Ns \<Rightarrow>
             Inr (update_integration_time (count_chunk (c2\<lparr> buffer_N_by_lineage := Ns \<rparr>))))"

subsection \<open>Multi-type interpolation\<close>

definition interpolate_multi_type_abundance ::
  "real \<Rightarrow> 'l controller \<Rightarrow> ('l \<rightharpoonup> real) \<times> 'l controller" where
  "interpolate_multi_type_abundance t c =
     (if length (buffer_times c) = 0 \<or> length (buffer_N_by_lineage c) = 0 then (Map.empty, c)
      else
        (let c1 = (if length (buffer_times c) \<noteq> length (buffer_N_by_lineage c)
                   then (let min_len = min (length (buffer_times c)) (length (buffer_N_by_lineage c))
                         in c\<lparr> buffer_times := take min_len (buffer_times c),
                               buffer_biomass := take min_len (buffer_biomass c),
                               buffer_N_by_lineage := take min_len (buffer_N_by_lineage c) \<rparr>)
                   else c)
         in if t \<le> buffer_times c1 ! 0 then (buffer_N_by_lineage c1 ! 0, c1)
            else if t \<ge> last (buffer_times c1) then (last (buffer_N_by_lineage c1), c1)
            else (let idx = bisect_left (buffer_times c1) t;
                      t0 = buffer_times c1 ! (idx - 1);
                      t1 = buffer_times c1 ! idx;
                      N_dict0 = buffer_N_by_lineage c1 ! (idx - 1);
                      N_dict1 = buffer_N_by_lineage c1 ! idx;
                      alpha = (if t1 > t0 then (t - t0) / (t1 - t0) else 0);
                      N_interp = (\<lambda>lineage_id.
                         if lineage_id \<in> dom N_dict0 \<union> dom N_dict1
                         then (let y0 = (case N_dict0 lineage_id of None \<Rightarrow> 0 | Some v \<Rightarrow> v);
                                   y1 = (case N_dict1 lineage_id of None \<Rightarrow> 0 | Some v \<Rightarrow> v)
                               in Some (y0 + alpha * (y1 - y0)))
                         else None)
                  in (N_interp, c1))))"

subsection \<open>Sequences of operations\<close>

datatype 'l op =
    AddDataChunk chunk
  | AddMultiTypeDataChunk epoch_times ndarray "'l list"
  | GetNextFrame real
  | InterpolateBiomass real
  | InterpolateMultiTypeAbundance real
  | Play
  | Pause
  | SetSpeed real
  | Reset

fun step :: "'l op \<Rightarrow> 'l controller \<Rightarrow> py_error + 'l controller" where
  "step (AddDataChunk ch) c = Inr (add_data_chunk ch c)"
| "step (AddMultiTypeDataChunk t_epoch N_epoch lineageIDs) c =
     add_multi_type_data_chunk t_epoch N_epoch lineageIDs c"
| "step (GetNextFrame real_time_delta) c = Inr (snd (get_next_frame real_time_delta c))"
| "step (InterpolateBiomass t) c = Inr (snd (interpolate_biomass t c))"
| "step (InterpolateMultiTypeAbundance t) c = Inr (snd (interpolate_multi_type_abundance t c))"
| "step Play c = Inr (play c)"
| "step Pause c = Inr (pause c)"
| "step (SetSpeed speed) c = Inr (set_speed speed c)"
| "step Reset c = Inr (reset c)"

fun run :: "'l op list \<Rightarrow> 'l controller \<Rightarrow> py_error + 'l controller" where
  "run [] c = Inr c"
| "run (x # xs) c = (case step x c of Inl e \<Rightarrow> Inl e | Inr c' \<Rightarrow> run xs c')"

subsection \<open>Buffer alignment\<close>

text \<open>The three parallel buffers have the same length.\<close>

definition aligned :: "'l controller \<Rightarrow> bool" where
  "aligned c \<longleftrightarrow>
     length (buffer_biomass c) = length (buffer_times c)
     \<and> length (buffer_N_by_lineage c) = length (buffer_times c)"

subsection \<open>Growth of the lineage registry\<close>

text \<open>
  The registry \<open>reg'\<close> extends \<open>reg\<close>: every ordinal assigned in \<open>reg\<close> is the same in
  \<open>reg'\<close>, and the list of \<open>reg'\<close> is the list of \<open>reg\<close> with identifiers appended.
\<close>

definition registry_extends :: "'l registry \<Rightarrow> 'l registry \<Rightarrow> bool" where
  "registry_extends reg reg' \<longleftrightarrow>
     (\<forall>lid k. lineage_to_global_idx reg lid = Some k \<longrightarrow> lineage_to_global_idx reg' lid = Some k)
     \<and> (\<exists>ys. global_lineage_list reg' = global_lineage_list reg @ ys)"

subsection \<open>Playback invariant\<close>

text \<open>
  Inputs without negative numbers: the times of a data chunk and the wall-clock delta of
  a tick are not negative.
\<close>

fun nonneg_input :: "'l op \<Rightarrow> bool" where
  "nonneg_input (AddDataChunk ch) = (\<forall>t \<in> set (fst (chunk_lists ch)). 0 \<le> t)"
| "nonneg_input (GetNextFrame real_time_delta) = (0 \<le> real_time_delta)"
| "nonneg_input _ = True"

text \<open>
  The state of a controller that has only buffered times that are not negative: aligned
  and strictly increasing buffers, the integration time equal to the last buffered time
  (0 while the buffer is empty), the animation time not beyond it, a speed that is not
  negative.
\<close>

definition playback_inv :: "'l controller \<Rightarrow> bool" where
  "playback_inv c \<longleftrightarrow>
     aligned c \<and> sorted_wrt (<) (buffer_times c) \<and> (\<forall>t \<in> set (buffer_times c). 0 \<le> t)
     \<and> (if buffer_times c = [] then integration_time c = 0
         else integration_time c = last (buffer_times c))
     \<and> animation_time c \<le> integration_time c
     \<and> 0 \<le> animation_speed c"

subsection \<open>Scalar interpolation in floating-point arithmetic\<close>

text \<open>
  Python's \<^verbatim>\<open>float\<close> is the IEEE 754 binary64 format: the exact result of every
  arithmetic operation is rounded to 53 significant bits, to the nearest representable
  number and to the even one of two nearest. \<open>binary64\<close> is that rounding for results in
  the normal range (overflow and subnormal numbers are left out).
\<close>

definition round_half_even :: "real \<Rightarrow> int" where
  "round_half_even x =
     (let f = \<lfloor>x\<rfloor>; r = x - of_int f
      in if r < 1 / 2 then f else if 1 / 2 < r then f + 1 else if even f then f else f + 1)"

definition binary64 :: "real \<Rightarrow> real" where
  "binary64 x =
     (if x = 0 then 0
      else (let e = \<lfloor>log 2 \<bar>x\<bar>\<rfloor> - 52
            in of_int (round_half_even (x / 2 powi e)) * 2 powi e))"

text \<open>
  \<^verbatim>\<open>_interpolate_biomass\<close> once more, with the rounding \<open>rnd\<close> of each arithmetic result
  written out in the order in which Python evaluates the two assignments
  \<^verbatim>\<open>alpha = (t - t0) / (t1 - t0)\<close> and \<^verbatim>\<open>y0 + alpha * (y1 - y0)\<close>; a divisor that rounds to
  zero raises. With the identity for \<open>rnd\<close> it is \<open>interpolate_biomass\<close>.
\<close>

definition interpolate_biomass_rounded ::
  "(real \<Rightarrow> real) \<Rightarrow> real \<Rightarrow> 'l controller \<Rightarrow> py_error + (real \<times> 'l controller)" where
  "interpolate_biomass_rounded rnd t c =
     (if length (buffer_times c) = 0 \<or> length (buffer_biomass c) = 0 then Inr (0, c)
      else
        (let c1 = (if length (buffer_times c) \<noteq> length (buffer_biomass c)
                   then (let min_len = min (length (buffer_times c)) (length (buffer_biomass c))
                         in c\<lparr> buffer_times := take min_len (buffer_times c),
                               buffer_biomass := take min_len (buffer_biomass c) \<rparr>)
                   else c)
         in if t \<le> buffer_times c1 ! 0 then Inr (buffer_biomass c1 ! 0, c1)
            else if t \<ge> last (buffer_times c1) then Inr (last (buffer_biomass c1), c1)
            else (let idx = bisect_left (buffer_times c1) t;
                      t0 = buffer_times c1 ! (idx - 1);
                      t1 = buffer_times c1 ! idx;
                      y0 = buffer_biomass c1 ! (idx - 1);
                      y1 = buffer_biomass c1 ! idx
                  in if t1 = t0 then Inr (y0, c1)
                     else if rnd (t1 - t0) = 0 then Inl ZeroDivisionError
                     else (let alpha = rnd (rnd (t - t0) / rnd (t1 - t0))
                           in Inr (rnd (y0 + rnd (alpha * rnd (y1 - y0))), c1)))))"

subsection \<open>Sequences of epochs\<close>

text \<open>
  An epoch is the triple of arguments of one call of \<^verbatim>\<open>add_multi_type_data_chunk\<close>;
  \<open>add_epochs\<close> makes the calls one after the other and stops at the first that raises.
\<close>

type_synonym 'l epoch = "epoch_times \<times> ndarray \<times> 'l list"

definition add_epoch :: "'l epoch \<Rightarrow> 'l controller \<Rightarrow> py_error + 'l controller" where
  "add_epoch e c =
     (case e of (t_epoch, N_epoch, lineageIDs) \<Rightarrow>
        add_multi_type_data_chunk t_epoch N_epoch lineageIDs c)"

definition add_epochs :: "'l epoch list \<Rightarrow> 'l controller \<Rightarrow> py_error + 'l controller" where
  "add_epochs es c = fold_err (\<lambda>c e. add_epoch e c) c es"

text \<open>
  The number of lineage identifiers of an epoch and the last of its times, both after
  the cuts that \<^verbatim>\<open>add_multi_type_data_chunk\<close> makes; an epoch may have no time.
\<close>

definition epoch_count :: "'l epoch \<Rightarrow> nat" where
  "epoch_count e =
     (case e of (t_epoch, N_epoch, lineageIDs) \<Rightarrow> length (epoch_lineageIDs N_epoch lineageIDs))"

definition epoch_last_time :: "'l epoch \<Rightarrow> real option" where
  "epoch_last_time e =
     (case e of (t_epoch, N_epoch, lineageIDs) \<Rightarrow>
        if epoch_t_list t_epoch N_epoch = [] then None
        else Some (last (epoch_t_list t_epoch N_epoch)))"

text \<open>
  The events expected of the epochs \<open>es\<close> that follow the epoch \<open>previous\<close>: one for each
  epoch that has a time and more lineage identifiers than the epoch before it, namely
  the last time of that epoch. This function is a specification, read off the epochs
  alone; the controller computes its events with \<open>detect_mutation\<close>.
\<close>

fun events_after :: "'l epoch \<Rightarrow> 'l epoch list \<Rightarrow> real list" where
  "events_after previous [] = []"
| "events_after previous (e # es) =
     (case epoch_last_time e of
        Some t \<Rightarrow> if epoch_count previous < epoch_count e then t # events_after e es
                  else events_after e es
      | None \<Rightarrow> events_after e es)"

subsection \<open>Adding a data chunk with the comparisons of floats\<close>

text \<open>
  The floats that \<^verbatim>\<open>add_data_chunk\<close> can be given: numbers, the two infinities and NaN.
  A NaN carries the identity of its float object, a natural number: list containment
  tests identity before equality, and for a NaN, which is equal to nothing, identity is
  all that can be found. For every other float identity adds nothing to equality.
\<close>

datatype pyfloat = NegInf | Finite real | PosInf | NaN nat

fun is_nan :: "pyfloat \<Rightarrow> bool" where
  "is_nan (NaN k) = True"
| "is_nan _ = False"

text \<open>\<^verbatim>\<open>x < y\<close> and \<^verbatim>\<open>x == y\<close> on floats: both are false as soon as an operand is a NaN.\<close>

fun float_lt :: "pyfloat \<Rightarrow> pyfloat \<Rightarrow> bool" where
  "float_lt (Finite a) (Finite b) = (a < b)"
| "float_lt NegInf (Finite b) = True"
| "float_lt NegInf PosInf = True"
| "float_lt (Finite a) PosInf = True"
| "float_lt _ _ = False"

fun float_eq :: "pyfloat \<Rightarrow> pyfloat \<Rightarrow> bool" where
  "float_eq (Finite a) (Finite b) = (a = b)"
| "float_eq NegInf NegInf = True"
| "float_eq PosInf PosInf = True"
| "float_eq _ _ = False"

text \<open>
  \<^verbatim>\<open>t in ts\<close> for a list: some element \<open>x\<close> is the object \<open>t\<close> or satisfies \<^verbatim>\<open>x == t\<close>.
\<close>

definition float_in :: "pyfloat \<Rightarrow> pyfloat list \<Rightarrow> bool" where
  "float_in t ts = list_ex (\<lambda>x. x = t \<or> float_eq x t) ts"

text \<open>\<^verbatim>\<open>bisect.bisect_left(a, x)\<close>, the same loop, with the comparison of floats.\<close>

function float_bisect_left_loop :: "pyfloat list \<Rightarrow> pyfloat \<Rightarrow> nat \<Rightarrow> nat \<Rightarrow> nat" where
  "float_bisect_left_loop a x lo hi =
     (if lo < hi
      then (let mid = (lo + hi) div 2
            in if float_lt (a ! mid) x then float_bisect_left_loop a x (mid + 1) hi
               else float_bisect_left_loop a x lo mid)
      else lo)"
  by pat_completeness auto
termination
  by (relation "measure (\<lambda>(a, x, lo, hi). hi - lo)") auto

declare float_bisect_left_loop.simps [simp del]

definition float_bisect_left :: "pyfloat list \<Rightarrow> pyfloat \<Rightarrow> nat" where
  "float_bisect_left a x = float_bisect_left_loop a x 0 (length a)"

text \<open>
  The attributes that \<^verbatim>\<open>add_data_chunk\<close> reads and writes. The biomass values are floats
  too; they are stored and never compared.
\<close>

record 'l float_buffers =
  float_buffer_times :: "pyfloat list"
  float_buffer_biomass :: "pyfloat list"
  float_buffer_N_by_lineage :: "('l \<rightharpoonup> real) list"
  float_integration_time :: pyfloat

definition float_init :: "'l float_buffers" where
  "float_init =
     \<lparr> float_buffer_times = [], float_buffer_biomass = [], float_buffer_N_by_lineage = [],
       float_integration_time = Finite 0 \<rparr>"

text \<open>
  The arguments of \<^verbatim>\<open>add_data_chunk\<close>. A scalar time is put into the list as the object
  it is; the elements of \<^verbatim>\<open>t_epoch.tolist()\<close> are new objects, so the NaN of an array
  chunk have identities that occur nowhere else.
\<close>

datatype float_chunk =
    FloatScalarChunk pyfloat pyfloat
  | FloatArrayChunk "pyfloat list" "pyfloat list"

text \<open>The body of the loop \<^verbatim>\<open>for t, biomass in zip(t_list, biomass_list)\<close>.\<close>

definition float_insert_point :: "'l float_buffers \<Rightarrow> pyfloat \<times> pyfloat \<Rightarrow> 'l float_buffers" where
  "float_insert_point b p =
     (let t = fst p; biomass = snd p
      in if float_in t (float_buffer_times b) then b
         else (let idx = float_bisect_left (float_buffer_times b) t
               in b\<lparr> float_buffer_times := list_insert idx t (float_buffer_times b),
                     float_buffer_biomass := list_insert idx biomass (float_buffer_biomass b),
                     float_buffer_N_by_lineage :=
                       list_insert idx Map.empty (float_buffer_N_by_lineage b) \<rparr>))"

fun float_chunk_lists :: "float_chunk \<Rightarrow> pyfloat list \<times> pyfloat list" where
  "float_chunk_lists (FloatArrayChunk t_epoch biomass_epoch) = (t_epoch, biomass_epoch)"
| "float_chunk_lists (FloatScalarChunk t_epoch biomass_epoch) = ([t_epoch], [biomass_epoch])"

definition float_update_integration_time :: "'l float_buffers \<Rightarrow> 'l float_buffers" where
  "float_update_integration_time b =
     (if length (float_buffer_times b) > 0
      then b\<lparr> float_integration_time := last (float_buffer_times b) \<rparr>
      else b)"

definition float_chunk_points :: "float_chunk \<Rightarrow> (pyfloat \<times> pyfloat) list" where
  "float_chunk_points ch =
     (let (t_list0, biomass_list0) = float_chunk_lists ch;
          (t_list, biomass_list) =
             (if length t_list0 \<noteq> length biomass_list0
              then (let min_len = min (length t_list0) (length biomass_list0)
                    in (take min_len t_list0, take min_len biomass_list0))
              else (t_list0, biomass_list0))
      in zip t_list biomass_list)"

definition float_add_data_chunk :: "float_chunk \<Rightarrow> 'l float_buffers \<Rightarrow> 'l float_buffers" where
  "float_add_data_chunk ch b =
     float_update_integration_time (foldl float_insert_point b (float_chunk_points ch))"

text \<open>
  The buffers and the chunks of the model over real numbers, seen as buffers and chunks
  of floats.
\<close>

definition finite_buffers :: "'l controller \<Rightarrow> 'l float_buffers" where
  "finite_buffers c =
     \<lparr> float_buffer_times = map Finite (buffer_times c),
       float_buffer_biomass = map Finite (buffer_biomass c),
       float_buffer_N_by_lineage = buffer_N_by_lineage c,
       float_integration_time = Finite (integration_time c) \<rparr>"

fun finite_chunk :: "chunk \<Rightarrow> float_chunk" where
  "finite_chunk (ScalarChunk t_epoch biomass_epoch) =
     FloatScalarChunk (Finite t_epoch) (Finite biomass_epoch)"
| "finite_chunk (ArrayChunk t_epoch biomass_epoch) =
     FloatArrayChunk (map Finite t_epoch) (map Finite biomass_epoch)"

section \<open>Evaluation on concrete inputs\<close>

lemmas eval_defs = init_def add_data_chunk_def chunk_points_def insert_point_def bisect_left_def
  bisect_left_loop.simps list_insert_def update_integration_time_def
  add_multi_type_data_chunk_def update_registry_def empty_registry_def
  register_lineage_def epoch_t_list_def epoch_lineageIDs_def detect_mutation_def
  store_epoch_time_def set_abundance_def store_abundance_def elem2_def elem2_last_def
  index_of_def count_chunk_def reset_def enumerate_eq_zip Let_def

lemmas float_eval_defs = float_init_def float_add_data_chunk_def float_chunk_points_def
  float_insert_point_def float_in_def float_bisect_left_def float_bisect_left_loop.simps
  list_insert_def float_update_integration_time_def Let_def

section \<open>Binary search and sorted insertion\<close>

lemma bisect_left_loop_stop: "\<not> lo < hi \<Longrightarrow> bisect_left_loop a x lo hi = lo"
  by (subst bisect_left_loop.simps) simp

lemma bisect_left_loop_sorted:
  assumes "sorted a" "lo \<le> hi" "hi \<le> length a"
    and "\<forall>i<lo. a ! i < x"
    and "\<forall>i. hi \<le> i \<and> i < length a \<longrightarrow> x \<le> a ! i"
  shows "lo \<le> bisect_left_loop a x lo hi \<and> bisect_left_loop a x lo hi \<le> hi
       \<and> (\<forall>i<bisect_left_loop a x lo hi. a ! i < x)
       \<and> (\<forall>i. bisect_left_loop a x lo hi \<le> i \<and> i < length a \<longrightarrow> x \<le> a ! i)"
  using assms
proof (induction a x lo hi rule: bisect_left_loop.induct)
  case (1 a x lo hi)
  show ?case
  proof (cases "lo < hi")
    case False
    then show ?thesis using "1.prems" by (simp add: bisect_left_loop_stop)
  next
    case True
    let ?mid = "(lo + hi) div 2"
    have mid: "lo \<le> ?mid" "?mid < hi" using True by auto
    show ?thesis
    proof (cases "a ! ?mid < x")
      case less: True
      have low: "\<forall>i<?mid + 1. a ! i < x"
      proof (intro allI impI)
        fix i assume "i < ?mid + 1"
        then have "i \<le> ?mid" by simp
        moreover have "?mid < length a" using mid "1.prems" by linarith
        ultimately have "a ! i \<le> a ! ?mid" using "1.prems"(1) by (simp add: sorted_nth_mono)
        then show "a ! i < x" using less by simp
      qed
      have IH: "?mid + 1 \<le> bisect_left_loop a x (?mid + 1) hi \<and> bisect_left_loop a x (?mid + 1) hi \<le> hi
       \<and> (\<forall>i<bisect_left_loop a x (?mid + 1) hi. a ! i < x)
       \<and> (\<forall>i. bisect_left_loop a x (?mid + 1) hi \<le> i \<and> i < length a \<longrightarrow> x \<le> a ! i)"
        using "1.IH"(1)[OF True refl less "1.prems"(1) _ "1.prems"(3) low "1.prems"(5)] mid by simp
      have eq: "bisect_left_loop a x lo hi = bisect_left_loop a x (?mid + 1) hi"
        using True less by (subst bisect_left_loop.simps) (simp add: Let_def)
      show ?thesis unfolding eq using IH mid by auto
    next
      case ge: False
      have high: "\<forall>i. ?mid \<le> i \<and> i < length a \<longrightarrow> x \<le> a ! i"
      proof (intro allI impI)
        fix i assume "?mid \<le> i \<and> i < length a"
        then have "a ! ?mid \<le> a ! i" using "1.prems"(1) by (simp add: sorted_nth_mono)
        then show "x \<le> a ! i" using ge by simp
      qed
      have hl: "?mid \<le> length a" using mid "1.prems" by linarith
      have IH: "lo \<le> bisect_left_loop a x lo ?mid \<and> bisect_left_loop a x lo ?mid \<le> ?mid
       \<and> (\<forall>i<bisect_left_loop a x lo ?mid. a ! i < x)
       \<and> (\<forall>i. bisect_left_loop a x lo ?mid \<le> i \<and> i < length a \<longrightarrow> x \<le> a ! i)"
        using "1.IH"(2)[OF True refl ge "1.prems"(1) mid(1) hl "1.prems"(4) high] .
      have eq: "bisect_left_loop a x lo hi = bisect_left_loop a x lo ?mid"
        using True ge by (subst bisect_left_loop.simps) (simp add: Let_def)
      show ?thesis unfolding eq using IH mid by auto
    qed
  qed
qed

lemma bisect_left_sorted:
  assumes "sorted a"
  shows "bisect_left a x \<le> length a"
    and "\<forall>i<bisect_left a x. a ! i < x"
    and "\<forall>i. bisect_left a x \<le> i \<and> i < length a \<longrightarrow> x \<le> a ! i"
  using bisect_left_loop_sorted[of a 0 "length a" x] assms
  by (simp_all add: bisect_left_def)


lemma bisect_left_loop_neighbours:
  assumes "lo \<le> hi" "hi \<le> length a"
    and "lo = 0 \<or> a ! (lo - 1) < x"
    and "hi = length a \<or> x \<le> a ! hi"
  shows "lo \<le> bisect_left_loop a x lo hi \<and> bisect_left_loop a x lo hi \<le> hi
       \<and> (bisect_left_loop a x lo hi = 0 \<or> a ! (bisect_left_loop a x lo hi - 1) < x)
       \<and> (bisect_left_loop a x lo hi = length a \<or> x \<le> a ! bisect_left_loop a x lo hi)"
  using assms
proof (induction a x lo hi rule: bisect_left_loop.induct)
  case (1 a x lo hi)
  show ?case
  proof (cases "lo < hi")
    case False
    then show ?thesis using "1.prems" by (simp add: bisect_left_loop_stop)
  next
    case True
    let ?mid = "(lo + hi) div 2"
    have mid: "lo \<le> ?mid" "?mid < hi" using True by auto
    show ?thesis
    proof (cases "a ! ?mid < x")
      case less: True
      have eq: "bisect_left_loop a x lo hi = bisect_left_loop a x (?mid + 1) hi"
        using True less by (subst bisect_left_loop.simps) (simp add: Let_def)
      have "?mid + 1 \<le> hi" using mid by simp
      moreover have "?mid + 1 = 0 \<or> a ! (?mid + 1 - 1) < x" using less by simp
      ultimately show ?thesis
        unfolding eq using "1.IH"(1)[OF True refl less _ "1.prems"(2) _ "1.prems"(4)] mid by auto
    next
      case ge: False
      have eq: "bisect_left_loop a x lo hi = bisect_left_loop a x lo ?mid"
        using True ge by (subst bisect_left_loop.simps) (simp add: Let_def)
      have hl: "?mid \<le> length a" using mid "1.prems" by linarith
      have "?mid = length a \<or> x \<le> a ! ?mid" using ge by simp
      then show ?thesis
        unfolding eq using "1.IH"(2)[OF True refl ge mid(1) hl "1.prems"(3)] mid by auto
    qed
  qed
qed

text \<open>
  Strictly between the first and the last element of a non-empty list, sorted or not, the
  search returns an index \<open>idx\<close> with \<open>1 \<le> idx < len(a)\<close>: the reads
  \<^verbatim>\<open>a[idx-1]\<close> and \<^verbatim>\<open>a[idx]\<close> of the interpolation functions are in range.
\<close>

lemma bisect_left_in_range:
  assumes "a \<noteq> []" "a ! 0 < x" "x < last a"
  shows "1 \<le> bisect_left a x \<and> bisect_left a x < length a"
proof -
  let ?r = "bisect_left_loop a x 0 (length a)"
  have r: "?r \<le> length a" "?r = 0 \<or> a ! (?r - 1) < x" "?r = length a \<or> x \<le> a ! ?r"
    using bisect_left_loop_neighbours[of 0 "length a" a x] by simp_all
  have "?r \<noteq> 0"
  proof
    assume "?r = 0"
    then show False using r(3) assms by auto
  qed
  moreover have "?r \<noteq> length a"
  proof
    assume e: "?r = length a"
    then have "a ! (length a - 1) < x" using r(2) assms(1) by auto
    then show False using assms by (simp add: last_conv_nth)
  qed
  ultimately show ?thesis using r(1) by (simp add: bisect_left_def)
qed

lemma strictly_increasing_sorted: "sorted_wrt (<) (xs::real list) \<Longrightarrow> sorted xs"
  by (simp add: strict_sorted_imp_sorted)

lemma set_list_insert [simp]: "set (list_insert idx x xs) = insert x (set xs)"
proof -
  have "set (take idx xs) \<union> set (drop idx xs) = set xs"
    by (metis append_take_drop_id set_append)
  then show ?thesis by (auto simp: list_insert_def)
qed

lemma length_list_insert [simp]: "length (list_insert idx x xs) = Suc (length xs)"
  by (simp add: list_insert_def)

lemma sorted_list_insert:
  assumes "sorted_wrt (<) xs" "t \<notin> set xs"
  shows "sorted_wrt (<) (list_insert (bisect_left xs t) t xs)"
proof -
  let ?k = "bisect_left xs t"
  have s: "sorted xs" using assms(1) by (rule strictly_increasing_sorted)
  have k: "?k \<le> length xs" "\<forall>i<?k. xs ! i < t" "\<forall>i. ?k \<le> i \<and> i < length xs \<longrightarrow> t \<le> xs ! i"
    using bisect_left_sorted[OF s] by blast+
  have below: "\<forall>y\<in>set (take ?k xs). y < t"
  proof
    fix y assume "y \<in> set (take ?k xs)"
    then obtain i where "i < length (take ?k xs)" "y = take ?k xs ! i"
      by (auto simp: in_set_conv_nth)
    then show "y < t" using k by simp
  qed
  have above: "\<forall>y\<in>set (drop ?k xs). t < y"
  proof
    fix y assume y: "y \<in> set (drop ?k xs)"
    then obtain i where i: "i < length (drop ?k xs)" "y = drop ?k xs ! i"
      by (auto simp: in_set_conv_nth)
    then have "t \<le> y" using k by simp
    moreover have "y \<in> set xs" using y by (rule in_set_dropD)
    ultimately show "t < y" using assms(2) by (cases "t = y") auto
  qed
  have cross: "\<forall>x\<in>set (take ?k xs). \<forall>y\<in>set (drop ?k xs). x < y"
  proof (intro ballI)
    fix x y assume "x \<in> set (take ?k xs)" "y \<in> set (drop ?k xs)"
    then have "x < t" "t < y" using below above by auto
    then show "x < y" by simp
  qed
  have "sorted_wrt (<) (take ?k xs)" "sorted_wrt (<) (drop ?k xs)"
    using assms(1) by (simp_all add: sorted_wrt_take sorted_wrt_drop)
  then show ?thesis
    using below above cross by (simp add: list_insert_def sorted_wrt_append)
qed

lemma sorted_le_last:
  assumes "sorted (ys::real list)" "y \<in> set ys"
  shows "y \<le> last ys"
proof -
  obtain i where i: "i < length ys" "ys ! i = y"
    using assms(2) by (auto simp: in_set_conv_nth)
  then have ne: "ys \<noteq> []" by auto
  have "ys ! i \<le> ys ! (length ys - 1)"
    using assms(1) i(1) by (intro sorted_nth_mono) auto
  then show ?thesis using i(2) ne by (simp add: last_conv_nth)
qed

lemma last_list_insert_ge:
  assumes "sorted_wrt (<) xs" "t \<notin> set xs" "y \<in> insert t (set xs)"
  shows "y \<le> last (list_insert (bisect_left xs t) t xs)"
proof -
  let ?ys = "list_insert (bisect_left xs t) t xs"
  have "sorted ?ys" using sorted_list_insert[OF assms(1,2)] by (rule strictly_increasing_sorted)
  moreover have "y \<in> set ?ys" using assms(3) by simp
  ultimately show ?thesis by (simp add: sorted_le_last)
qed




section \<open>What each operation leaves unchanged\<close>

lemma insert_point_frame [simp]:
  "is_playing (insert_point c p) = is_playing c"
  "animation_time (insert_point c p) = animation_time c"
  "integration_time (insert_point c p) = integration_time c"
  "animation_speed (insert_point c p) = animation_speed c"
  "registry (insert_point c p) = registry c"
  "mutation_events (insert_point c p) = mutation_events c"
  "current_lineageIDs (insert_point c p) = current_lineageIDs c"
  by (simp_all add: insert_point_def Let_def)

lemma foldl_insert_point_frame [simp]:
  "is_playing (foldl insert_point c ps) = is_playing c"
  "animation_time (foldl insert_point c ps) = animation_time c"
  "integration_time (foldl insert_point c ps) = integration_time c"
  "animation_speed (foldl insert_point c ps) = animation_speed c"
  "registry (foldl insert_point c ps) = registry c"
  "mutation_events (foldl insert_point c ps) = mutation_events c"
  "current_lineageIDs (foldl insert_point c ps) = current_lineageIDs c"
  by (induction ps arbitrary: c) simp_all

lemma update_integration_time_frame [simp]:
  "is_playing (update_integration_time c) = is_playing c"
  "animation_time (update_integration_time c) = animation_time c"
  "animation_speed (update_integration_time c) = animation_speed c"
  "registry (update_integration_time c) = registry c"
  "mutation_events (update_integration_time c) = mutation_events c"
  "current_lineageIDs (update_integration_time c) = current_lineageIDs c"
  "buffer_times (update_integration_time c) = buffer_times c"
  "buffer_biomass (update_integration_time c) = buffer_biomass c"
  "buffer_N_by_lineage (update_integration_time c) = buffer_N_by_lineage c"
  by (simp_all add: update_integration_time_def)

lemma add_data_chunk_frame [simp]:
  "is_playing (add_data_chunk ch c) = is_playing c"
  "animation_time (add_data_chunk ch c) = animation_time c"
  "animation_speed (add_data_chunk ch c) = animation_speed c"
  "registry (add_data_chunk ch c) = registry c"
  "mutation_events (add_data_chunk ch c) = mutation_events c"
  "current_lineageIDs (add_data_chunk ch c) = current_lineageIDs c"
  by (simp_all add: add_data_chunk_def)

lemma interpolate_biomass_frame [simp]:
  "is_playing (snd (interpolate_biomass t c)) = is_playing c"
  "animation_time (snd (interpolate_biomass t c)) = animation_time c"
  "integration_time (snd (interpolate_biomass t c)) = integration_time c"
  "animation_speed (snd (interpolate_biomass t c)) = animation_speed c"
  "registry (snd (interpolate_biomass t c)) = registry c"
  "mutation_events (snd (interpolate_biomass t c)) = mutation_events c"
  "current_lineageIDs (snd (interpolate_biomass t c)) = current_lineageIDs c"
  by (simp_all add: interpolate_biomass_def Let_def)

lemma interpolate_multi_type_abundance_frame [simp]:
  "is_playing (snd (interpolate_multi_type_abundance t c)) = is_playing c"
  "animation_time (snd (interpolate_multi_type_abundance t c)) = animation_time c"
  "integration_time (snd (interpolate_multi_type_abundance t c)) = integration_time c"
  "animation_speed (snd (interpolate_multi_type_abundance t c)) = animation_speed c"
  "registry (snd (interpolate_multi_type_abundance t c)) = registry c"
  "mutation_events (snd (interpolate_multi_type_abundance t c)) = mutation_events c"
  "current_lineageIDs (snd (interpolate_multi_type_abundance t c)) = current_lineageIDs c"
  by (simp_all add: interpolate_multi_type_abundance_def Let_def)

lemma get_next_frame_frame [simp]:
  "is_playing (snd (get_next_frame d c)) = is_playing c"
  "integration_time (snd (get_next_frame d c)) = integration_time c"
  "animation_speed (snd (get_next_frame d c)) = animation_speed c"
  "registry (snd (get_next_frame d c)) = registry c"
  "mutation_events (snd (get_next_frame d c)) = mutation_events c"
  "current_lineageIDs (snd (get_next_frame d c)) = current_lineageIDs c"
  by (simp_all add: get_next_frame_def Let_def split_def)

lemma update_registry_frame [simp]:
  "is_playing (update_registry ids c) = is_playing c"
  "animation_time (update_registry ids c) = animation_time c"
  "integration_time (update_registry ids c) = integration_time c"
  "animation_speed (update_registry ids c) = animation_speed c"
  "mutation_events (update_registry ids c) = mutation_events c"
  "current_lineageIDs (update_registry ids c) = current_lineageIDs c"
  "buffer_times (update_registry ids c) = buffer_times c"
  "buffer_biomass (update_registry ids c) = buffer_biomass c"
  "buffer_N_by_lineage (update_registry ids c) = buffer_N_by_lineage c"
  by (simp_all add: update_registry_def Let_def)

lemma detect_mutation_frame [simp]:
  "is_playing (detect_mutation ts ids c) = is_playing c"
  "animation_time (detect_mutation ts ids c) = animation_time c"
  "integration_time (detect_mutation ts ids c) = integration_time c"
  "animation_speed (detect_mutation ts ids c) = animation_speed c"
  "registry (detect_mutation ts ids c) = registry c"
  "buffer_times (detect_mutation ts ids c) = buffer_times c"
  "buffer_biomass (detect_mutation ts ids c) = buffer_biomass c"
  "buffer_N_by_lineage (detect_mutation ts ids c) = buffer_N_by_lineage c"
  "current_lineageIDs (detect_mutation ts ids c) = ids"
  by (simp_all add: detect_mutation_def Let_def)

lemma count_chunk_frame [simp]:
  "is_playing (count_chunk c) = is_playing c"
  "animation_time (count_chunk c) = animation_time c"
  "integration_time (count_chunk c) = integration_time c"
  "animation_speed (count_chunk c) = animation_speed c"
  "registry (count_chunk c) = registry c"
  "mutation_events (count_chunk c) = mutation_events c"
  "current_lineageIDs (count_chunk c) = current_lineageIDs c"
  "buffer_times (count_chunk c) = buffer_times c"
  "buffer_biomass (count_chunk c) = buffer_biomass c"
  "buffer_N_by_lineage (count_chunk c) = buffer_N_by_lineage c"
  by (simp_all add: count_chunk_def Let_def)

lemma add_multi_type_data_chunk_frame:
  assumes "add_multi_type_data_chunk t N ids c = Inr c'"
  shows "is_playing c' = is_playing c"
    and "animation_time c' = animation_time c"
    and "animation_speed c' = animation_speed c"
    and "buffer_times c' = buffer_times c"
    and "buffer_biomass c' = buffer_biomass c"
    and "current_lineageIDs c' = epoch_lineageIDs N ids"
  using assms
  by (auto simp: add_multi_type_data_chunk_def Let_def split: sum.splits)

section \<open>Buffer invariants of insertion\<close>

lemma buffer_times_insert_point:
  "buffer_times (insert_point c p) =
     (if fst p \<in> set (buffer_times c) then buffer_times c
      else list_insert (bisect_left (buffer_times c) (fst p)) (fst p) (buffer_times c))"
  by (simp add: insert_point_def Let_def)

lemma insert_point_present:
  "fst p \<in> set (buffer_times c) \<Longrightarrow> insert_point c p = c"
  by (simp add: insert_point_def Let_def)

lemma sorted_insert_point:
  "sorted_wrt (<) (buffer_times c) \<Longrightarrow> sorted_wrt (<) (buffer_times (insert_point c p))"
  by (simp add: buffer_times_insert_point sorted_list_insert)

lemma set_buffer_times_insert_point:
  "set (buffer_times (insert_point c p)) = insert (fst p) (set (buffer_times c))"
  by (auto simp: buffer_times_insert_point)

lemma aligned_insert_point: "aligned c \<Longrightarrow> aligned (insert_point c p)"
  by (simp add: aligned_def insert_point_def Let_def)

lemma sorted_foldl_insert_point:
  "sorted_wrt (<) (buffer_times c) \<Longrightarrow> sorted_wrt (<) (buffer_times (foldl insert_point c ps))"
  by (induction ps arbitrary: c) (simp_all add: sorted_insert_point)

lemma set_buffer_times_foldl_insert_point:
  "set (buffer_times (foldl insert_point c ps)) = fst ` set ps \<union> set (buffer_times c)"
  by (induction ps arbitrary: c) (auto simp: set_buffer_times_insert_point)

lemma aligned_foldl_insert_point: "aligned c \<Longrightarrow> aligned (foldl insert_point c ps)"
  by (induction ps arbitrary: c) (simp_all add: aligned_insert_point)

lemma foldl_insert_point_present:
  "fst ` set ps \<subseteq> set (buffer_times c) \<Longrightarrow> foldl insert_point c ps = c"
  by (induction ps arbitrary: c) (simp_all add: insert_point_present)

lemma aligned_update_integration_time [simp]:
  "aligned (update_integration_time c) = aligned c"
  by (simp add: aligned_def)

lemma sorted_add_data_chunk:
  "sorted_wrt (<) (buffer_times c) \<Longrightarrow> sorted_wrt (<) (buffer_times (add_data_chunk ch c))"
  by (simp add: add_data_chunk_def sorted_foldl_insert_point)

lemma aligned_add_data_chunk: "aligned c \<Longrightarrow> aligned (add_data_chunk ch c)"
  by (simp add: add_data_chunk_def aligned_foldl_insert_point)

lemma sorted_add_data_chunks:
  "sorted_wrt (<) (buffer_times c) \<Longrightarrow>
   sorted_wrt (<) (buffer_times (foldl (\<lambda>c ch. add_data_chunk ch c) c chunks))"
  by (induction chunks arbitrary: c) (simp_all add: sorted_add_data_chunk)

section \<open>Insertion with the comparisons of floats\<close>

text \<open>
  The comparison \<open>float_lt\<close> orders the numbers and the two infinities linearly; a NaN
  is outside that order. The binary search is correct on every strictly increasing list,
  and an insertion keeps the list strictly increasing as long as no NaN is involved.
\<close>

lemma float_lt_trans: "float_lt x y \<Longrightarrow> float_lt y z \<Longrightarrow> float_lt x z"
  by (cases x; cases y; cases z) auto

lemma float_lt_irrefl: "\<not> float_lt x x"
  by (cases x) auto

lemma float_trichotomy:
  "\<not> is_nan x \<Longrightarrow> \<not> is_nan y \<Longrightarrow> float_lt x y \<or> x = y \<or> float_lt y x"
  by (cases x; cases y) auto

lemma float_eq_iff: "\<not> is_nan t \<Longrightarrow> float_eq x t \<longleftrightarrow> x = t"
  by (cases x; cases t) auto

lemma float_in_iff: "\<not> is_nan t \<Longrightarrow> float_in t ts \<longleftrightarrow> t \<in> set ts"
  by (auto simp: float_in_def list_ex_iff float_eq_iff)

lemma float_in_same: "t \<in> set ts \<Longrightarrow> float_in t ts"
  by (auto simp: float_in_def list_ex_iff)

lemma sorted_wrt_float_lt_distinct: "sorted_wrt float_lt ts \<Longrightarrow> distinct ts"
  by (induction ts) (auto simp: float_lt_irrefl)

lemma float_bisect_left_loop_stop:
  "\<not> lo < hi \<Longrightarrow> float_bisect_left_loop a x lo hi = lo"
  by (subst float_bisect_left_loop.simps) simp

lemma float_bisect_left_loop_sorted:
  assumes "sorted_wrt float_lt a" "lo \<le> hi" "hi \<le> length a"
    and "\<forall>i<lo. float_lt (a ! i) x"
    and "\<forall>i. hi \<le> i \<and> i < length a \<longrightarrow> \<not> float_lt (a ! i) x"
  shows "lo \<le> float_bisect_left_loop a x lo hi \<and> float_bisect_left_loop a x lo hi \<le> hi
       \<and> (\<forall>i<float_bisect_left_loop a x lo hi. float_lt (a ! i) x)
       \<and> (\<forall>i. float_bisect_left_loop a x lo hi \<le> i \<and> i < length a \<longrightarrow> \<not> float_lt (a ! i) x)"
  using assms
proof (induction a x lo hi rule: float_bisect_left_loop.induct)
  case (1 a x lo hi)
  show ?case
  proof (cases "lo < hi")
    case False
    then show ?thesis using "1.prems" by (simp add: float_bisect_left_loop_stop)
  next
    case True
    let ?mid = "(lo + hi) div 2"
    have mid: "lo \<le> ?mid" "?mid < hi" using True by auto
    have ml: "?mid < length a" using mid "1.prems"(3) by linarith
    show ?thesis
    proof (cases "float_lt (a ! ?mid) x")
      case less: True
      have low: "\<forall>i<?mid + 1. float_lt (a ! i) x"
      proof (intro allI impI)
        fix i assume "i < ?mid + 1"
        then consider "i = ?mid" | "i < ?mid" by linarith
        then show "float_lt (a ! i) x"
        proof cases
          case 1
          then show ?thesis using less by simp
        next
          case 2
          then have "float_lt (a ! i) (a ! ?mid)"
            using sorted_wrt_nth_less [OF "1.prems"(1), of i ?mid] ml by simp
          then show ?thesis using less float_lt_trans by blast
        qed
      qed
      have IH: "?mid + 1 \<le> float_bisect_left_loop a x (?mid + 1) hi
       \<and> float_bisect_left_loop a x (?mid + 1) hi \<le> hi
       \<and> (\<forall>i<float_bisect_left_loop a x (?mid + 1) hi. float_lt (a ! i) x)
       \<and> (\<forall>i. float_bisect_left_loop a x (?mid + 1) hi \<le> i \<and> i < length a
              \<longrightarrow> \<not> float_lt (a ! i) x)"
        using "1.IH"(1)[OF True refl less "1.prems"(1) _ "1.prems"(3) low "1.prems"(5)] mid by simp
      have eq: "float_bisect_left_loop a x lo hi = float_bisect_left_loop a x (?mid + 1) hi"
        using True less by (subst float_bisect_left_loop.simps) (simp add: Let_def)
      show ?thesis unfolding eq using IH mid by auto
    next
      case ge: False
      have high: "\<forall>i. ?mid \<le> i \<and> i < length a \<longrightarrow> \<not> float_lt (a ! i) x"
      proof (intro allI impI notI)
        fix i assume i: "?mid \<le> i \<and> i < length a" and lt: "float_lt (a ! i) x"
        then consider "i = ?mid" | "?mid < i" by linarith
        then show False
        proof cases
          case 1
          then show ?thesis using ge lt by simp
        next
          case 2
          then have "float_lt (a ! ?mid) (a ! i)"
            using sorted_wrt_nth_less [OF "1.prems"(1), of ?mid i] i by simp
          then show ?thesis using lt ge float_lt_trans by blast
        qed
      qed
      have hl: "?mid \<le> length a" using ml by simp
      have IH: "lo \<le> float_bisect_left_loop a x lo ?mid \<and> float_bisect_left_loop a x lo ?mid \<le> ?mid
       \<and> (\<forall>i<float_bisect_left_loop a x lo ?mid. float_lt (a ! i) x)
       \<and> (\<forall>i. float_bisect_left_loop a x lo ?mid \<le> i \<and> i < length a
              \<longrightarrow> \<not> float_lt (a ! i) x)"
        using "1.IH"(2)[OF True refl ge "1.prems"(1) mid(1) hl "1.prems"(4) high] .
      have eq: "float_bisect_left_loop a x lo hi = float_bisect_left_loop a x lo ?mid"
        using True ge by (subst float_bisect_left_loop.simps) (simp add: Let_def)
      show ?thesis unfolding eq using IH mid by auto
    qed
  qed
qed

lemma float_bisect_left_sorted:
  assumes "sorted_wrt float_lt a"
  shows "float_bisect_left a x \<le> length a
       \<and> (\<forall>i<float_bisect_left a x. float_lt (a ! i) x)
       \<and> (\<forall>i. float_bisect_left a x \<le> i \<and> i < length a \<longrightarrow> \<not> float_lt (a ! i) x)"
proof -
  have le: "(0::nat) \<le> length a" and hl: "length a \<le> length a"
    by simp_all
  have lo: "\<forall>i<(0::nat). float_lt (a ! i) x"
    by simp
  have hi: "\<forall>i. length a \<le> i \<and> i < length a \<longrightarrow> \<not> float_lt (a ! i) x"
    by auto
  from float_bisect_left_loop_sorted [OF assms le hl lo hi]
  show ?thesis unfolding float_bisect_left_def by (rule conjunct2)
qed

lemma float_sorted_list_insert:
  assumes "sorted_wrt float_lt ts" "\<forall>x \<in> set ts. \<not> is_nan x" "\<not> is_nan t" "t \<notin> set ts"
  shows "sorted_wrt float_lt (list_insert (float_bisect_left ts t) t ts)"
proof -
  let ?k = "float_bisect_left ts t"
  have k: "?k \<le> length ts" "\<forall>i<?k. float_lt (ts ! i) t"
    "\<forall>i. ?k \<le> i \<and> i < length ts \<longrightarrow> \<not> float_lt (ts ! i) t"
    using float_bisect_left_sorted [OF assms(1), of t] by blast+
  have below: "\<forall>y\<in>set (take ?k ts). float_lt y t"
  proof
    fix y assume "y \<in> set (take ?k ts)"
    then obtain i where "i < length (take ?k ts)" "y = take ?k ts ! i"
      by (auto simp: in_set_conv_nth)
    then show "float_lt y t" using k(2) by simp
  qed
  have above: "\<forall>y\<in>set (drop ?k ts). float_lt t y"
  proof
    fix y assume y: "y \<in> set (drop ?k ts)"
    then obtain i where i: "i < length (drop ?k ts)" "y = drop ?k ts ! i"
      by (auto simp: in_set_conv_nth)
    have "\<not> float_lt (ts ! (?k + i)) t"
      using k(3) i(1) by simp
    then have nlt: "\<not> float_lt y t" using i k(1) by simp
    have mem: "y \<in> set ts" using y by (rule in_set_dropD)
    then have "\<not> is_nan y" "t \<noteq> y" using assms(2,4) by auto
    then show "float_lt t y" using float_trichotomy [OF assms(3), of y] nlt by blast
  qed
  have cross: "\<forall>x\<in>set (take ?k ts). \<forall>y\<in>set (drop ?k ts). float_lt x y"
  proof (intro ballI)
    fix x y assume "x \<in> set (take ?k ts)" "y \<in> set (drop ?k ts)"
    then have "float_lt x t" "float_lt t y" using below above by auto
    then show "float_lt x y" by (rule float_lt_trans)
  qed
  have "sorted_wrt float_lt (take ?k ts)" "sorted_wrt float_lt (drop ?k ts)"
    using assms(1) by (simp_all add: sorted_wrt_take sorted_wrt_drop)
  then show ?thesis
    using below above cross by (simp add: list_insert_def sorted_wrt_append)
qed

lemma float_buffer_times_insert_point:
  "float_buffer_times (float_insert_point b p) =
     (if float_in (fst p) (float_buffer_times b) then float_buffer_times b
      else list_insert (float_bisect_left (float_buffer_times b) (fst p)) (fst p)
             (float_buffer_times b))"
  by (simp add: float_insert_point_def Let_def)

lemma float_insert_point_present:
  "float_in (fst p) (float_buffer_times b) \<Longrightarrow> float_insert_point b p = b"
  by (simp add: float_insert_point_def Let_def)

lemma float_insert_point_member:
  "fst p \<in> set (float_buffer_times (float_insert_point b p))
   \<or> float_in (fst p) (float_buffer_times b)"
  by (simp add: float_buffer_times_insert_point)

lemma float_insert_point_sorted:
  assumes "sorted_wrt float_lt (float_buffer_times b)"
    and "\<forall>x \<in> set (float_buffer_times b). \<not> is_nan x"
    and "\<not> is_nan (fst p)"
  shows "sorted_wrt float_lt (float_buffer_times (float_insert_point b p))"
    and "\<forall>x \<in> set (float_buffer_times (float_insert_point b p)). \<not> is_nan x"
proof -
  show "sorted_wrt float_lt (float_buffer_times (float_insert_point b p))"
  proof (cases "float_in (fst p) (float_buffer_times b)")
    case True
    then show ?thesis using assms(1) by (simp add: float_buffer_times_insert_point)
  next
    case False
    then have "fst p \<notin> set (float_buffer_times b)"
      using float_in_iff [OF assms(3)] by simp
    then show ?thesis
      using False float_sorted_list_insert [OF assms(1,2,3)]
      by (simp add: float_buffer_times_insert_point)
  qed
  show "\<forall>x \<in> set (float_buffer_times (float_insert_point b p)). \<not> is_nan x"
    using assms(2,3) by (simp add: float_buffer_times_insert_point)
qed

lemma float_foldl_insert_point_sorted:
  "sorted_wrt float_lt (float_buffer_times b) \<Longrightarrow>
   \<forall>x \<in> set (float_buffer_times b). \<not> is_nan x \<Longrightarrow>
   \<forall>p \<in> set ps. \<not> is_nan (fst p) \<Longrightarrow>
   sorted_wrt float_lt (float_buffer_times (foldl float_insert_point b ps))
   \<and> (\<forall>x \<in> set (float_buffer_times (foldl float_insert_point b ps)). \<not> is_nan x)"
proof (induction ps arbitrary: b)
  case Nil
  then show ?case by simp
next
  case (Cons p ps)
  have p: "\<not> is_nan (fst p)" using Cons.prems(3) by simp
  have ps: "\<forall>p \<in> set ps. \<not> is_nan (fst p)" using Cons.prems(3) by simp
  have "sorted_wrt float_lt (float_buffer_times (foldl float_insert_point (float_insert_point b p) ps))
   \<and> (\<forall>x \<in> set (float_buffer_times (foldl float_insert_point (float_insert_point b p) ps)).
         \<not> is_nan x)"
    by (rule Cons.IH [OF float_insert_point_sorted [OF Cons.prems(1,2) p] ps])
  then show ?case by simp
qed

lemma float_buffers_update_integration_time [simp]:
  "float_buffer_times (float_update_integration_time b) = float_buffer_times b"
  "float_buffer_biomass (float_update_integration_time b) = float_buffer_biomass b"
  "float_buffer_N_by_lineage (float_update_integration_time b) = float_buffer_N_by_lineage b"
  by (simp_all add: float_update_integration_time_def)

lemma float_add_data_chunk_sorted:
  assumes "sorted_wrt float_lt (float_buffer_times b)"
    and "\<forall>x \<in> set (float_buffer_times b). \<not> is_nan x"
    and "\<forall>p \<in> set (float_chunk_points ch). \<not> is_nan (fst p)"
  shows "sorted_wrt float_lt (float_buffer_times (float_add_data_chunk ch b))"
    and "\<forall>x \<in> set (float_buffer_times (float_add_data_chunk ch b)). \<not> is_nan x"
  using float_foldl_insert_point_sorted [OF assms] by (simp_all add: float_add_data_chunk_def)

lemma float_add_data_chunks_sorted:
  "sorted_wrt float_lt (float_buffer_times b) \<Longrightarrow>
   \<forall>x \<in> set (float_buffer_times b). \<not> is_nan x \<Longrightarrow>
   \<forall>ch \<in> set chunks. \<forall>p \<in> set (float_chunk_points ch). \<not> is_nan (fst p) \<Longrightarrow>
   sorted_wrt float_lt
     (float_buffer_times (foldl (\<lambda>b ch. float_add_data_chunk ch b) b chunks))"
proof (induction chunks arbitrary: b)
  case Nil
  then show ?case by simp
next
  case (Cons ch chunks)
  have ch: "\<forall>p \<in> set (float_chunk_points ch). \<not> is_nan (fst p)"
    using Cons.prems(3) by simp
  have chs: "\<forall>ch \<in> set chunks. \<forall>p \<in> set (float_chunk_points ch). \<not> is_nan (fst p)"
    using Cons.prems(3) by simp
  have "sorted_wrt float_lt
     (float_buffer_times (foldl (\<lambda>b ch. float_add_data_chunk ch b)
        (float_add_data_chunk ch b) chunks))"
    by (rule Cons.IH [OF float_add_data_chunk_sorted [OF Cons.prems(1,2) ch] chs])
  then show ?case by simp
qed

lemma float_bisect_left_loop_finite:
  "hi \<le> length a \<Longrightarrow>
   float_bisect_left_loop (map Finite a) (Finite x) lo hi = bisect_left_loop a x lo hi"
proof (induction a x lo hi rule: bisect_left_loop.induct)
  case (1 a x lo hi)
  show ?case
  proof (cases "lo < hi")
    case False
    then show ?thesis by (simp add: float_bisect_left_loop_stop bisect_left_loop_stop)
  next
    case True
    let ?mid = "(lo + hi) div 2"
    have mid: "?mid < hi" using True by auto
    then have ml: "?mid < length a" using "1.prems" by linarith
    have nth: "map Finite a ! ?mid = Finite (a ! ?mid)"
      using ml by simp
    show ?thesis
    proof (cases "a ! ?mid < x")
      case less: True
      have "float_bisect_left_loop (map Finite a) (Finite x) lo hi
          = float_bisect_left_loop (map Finite a) (Finite x) (?mid + 1) hi"
        using True less nth by (subst float_bisect_left_loop.simps) (simp add: Let_def)
      also have "\<dots> = bisect_left_loop a x (?mid + 1) hi"
        using "1.IH"(1) [OF True refl less "1.prems"] .
      also have "\<dots> = bisect_left_loop a x lo hi"
        using True less by (subst (2) bisect_left_loop.simps) (simp add: Let_def)
      finally show ?thesis .
    next
      case ge: False
      have hl: "?mid \<le> length a" using ml by simp
      have "float_bisect_left_loop (map Finite a) (Finite x) lo hi
          = float_bisect_left_loop (map Finite a) (Finite x) lo ?mid"
        using True ge nth by (subst float_bisect_left_loop.simps) (simp add: Let_def)
      also have "\<dots> = bisect_left_loop a x lo ?mid"
        using "1.IH"(2) [OF True refl ge hl] .
      also have "\<dots> = bisect_left_loop a x lo hi"
        using True ge by (subst (2) bisect_left_loop.simps) (simp add: Let_def)
      finally show ?thesis .
    qed
  qed
qed

lemma float_bisect_left_finite:
  "float_bisect_left (map Finite a) (Finite x) = bisect_left a x"
  using float_bisect_left_loop_finite [of "length a" a x 0]
  by (simp add: float_bisect_left_def bisect_left_def)

lemma float_in_finite: "float_in (Finite t) (map Finite ts) \<longleftrightarrow> t \<in> set ts"
  by (auto simp: float_in_def list_ex_iff)

lemma list_insert_map: "list_insert idx (f x) (map f xs) = map f (list_insert idx x xs)"
  by (simp add: list_insert_def take_map drop_map)

lemma float_insert_point_finite:
  "float_insert_point (finite_buffers c) (Finite t, Finite v) = finite_buffers (insert_point c (t, v))"
  by (simp add: float_insert_point_def insert_point_def finite_buffers_def Let_def
      float_in_finite float_bisect_left_finite list_insert_map)

lemma float_foldl_insert_point_finite:
  "foldl float_insert_point (finite_buffers c) (map (\<lambda>p. (Finite (fst p), Finite (snd p))) ps)
     = finite_buffers (foldl insert_point c ps)"
proof (induction ps arbitrary: c)
  case Nil
  then show ?case by simp
next
  case (Cons p ps)
  have "float_insert_point (finite_buffers c) (Finite (fst p), Finite (snd p))
      = finite_buffers (insert_point c p)"
    using float_insert_point_finite [of c "fst p" "snd p"] by simp
  then show ?case using Cons.IH by simp
qed

lemma float_chunk_points_finite:
  "float_chunk_points (finite_chunk ch) = map (\<lambda>p. (Finite (fst p), Finite (snd p))) (chunk_points ch)"
  by (cases ch)
    (auto simp: float_chunk_points_def chunk_points_def Let_def zip_map_map take_map
       split: prod.splits)

lemma float_update_integration_time_finite:
  "float_update_integration_time (finite_buffers c) = finite_buffers (update_integration_time c)"
  by (simp add: float_update_integration_time_def update_integration_time_def finite_buffers_def
      last_map)

text \<open>
  On numbers the two models of \<^verbatim>\<open>add_data_chunk\<close> agree: what the model over real
  numbers does to its buffers is what the model over floats does to the same buffers.
\<close>

lemma float_add_data_chunk_finite:
  "float_add_data_chunk (finite_chunk ch) (finite_buffers c) = finite_buffers (add_data_chunk ch c)"
  by (simp add: float_add_data_chunk_def add_data_chunk_def float_chunk_points_finite
      float_foldl_insert_point_finite float_update_integration_time_finite)

text \<open>
  Claim C3, as amended. Whatever chunks are added, in any order and with any repeats, to
  buffers whose times are strictly increasing and hold no NaN (the empty buffers of a new
  controller, for one), if no time of the chunks is a NaN then the buffered times are
  strictly increasing afterwards, hence without duplicates.
\<close>

theorem float_buffer_times_strictly_increasing:
  assumes "sorted_wrt float_lt (float_buffer_times b)"
    and "\<forall>x \<in> set (float_buffer_times b). \<not> is_nan x"
    and "\<forall>ch \<in> set chunks. \<forall>p \<in> set (float_chunk_points ch). \<not> is_nan (fst p)"
  shows "sorted_wrt float_lt
           (float_buffer_times (foldl (\<lambda>b ch. float_add_data_chunk ch b) b chunks))
       \<and> distinct (float_buffer_times (foldl (\<lambda>b ch. float_add_data_chunk ch b) b chunks))"
  using float_add_data_chunks_sorted [OF assms] sorted_wrt_float_lt_distinct by blast

lemma example_float_buffer_times:
  "float_buffer_times (foldl (\<lambda>b ch. float_add_data_chunk ch b) (float_init :: string float_buffers)
      [FloatScalarChunk (Finite 3) (Finite 30), FloatScalarChunk PosInf (Finite 10),
       FloatArrayChunk [Finite 2, Finite 3, NegInf, PosInf] [Finite 20, Finite 31, Finite 5, NaN 0]])
   = [NegInf, Finite 2, Finite 3, PosInf]"
  by (simp add: float_eval_defs)

theorem float_buffer_times_strictly_increasing_witness:
  "float_buffer_times (float_init :: string float_buffers) = []
   \<and> list_all (\<lambda>ch. list_all (\<lambda>p. \<not> is_nan (fst p)) (float_chunk_points ch))
        [FloatScalarChunk (Finite 3) (Finite 30), FloatScalarChunk PosInf (Finite 10),
         FloatArrayChunk [Finite 2, Finite 3, NegInf, PosInf] [Finite 20, Finite 31, Finite 5, NaN 0]]
   \<and> float_buffer_times (foldl (\<lambda>b ch. float_add_data_chunk ch b) (float_init :: string float_buffers)
      [FloatScalarChunk (Finite 3) (Finite 30), FloatScalarChunk PosInf (Finite 10),
       FloatArrayChunk [Finite 2, Finite 3, NegInf, PosInf] [Finite 20, Finite 31, Finite 5, NaN 0]])
     = [NegInf, Finite 2, Finite 3, PosInf]
   \<and> sorted_wrt float_lt [NegInf, Finite 2, Finite 3, PosInf]
   \<and> distinct [NegInf, Finite 2, Finite 3, PosInf]"
proof -
  have e: "float_buffer_times (float_init :: string float_buffers) = []"
    by (simp add: float_init_def)
  have h1: "sorted_wrt float_lt (float_buffer_times (float_init :: string float_buffers))"
    by (simp add: e)
  have h2: "\<forall>x \<in> set (float_buffer_times (float_init :: string float_buffers)). \<not> is_nan x"
    by (simp add: e)
  have h3: "\<forall>ch \<in> set [FloatScalarChunk (Finite 3) (Finite 30), FloatScalarChunk PosInf (Finite 10),
         FloatArrayChunk [Finite 2, Finite 3, NegInf, PosInf] [Finite 20, Finite 31, Finite 5, NaN 0]].
        \<forall>p \<in> set (float_chunk_points ch). \<not> is_nan (fst p)"
    by (auto simp: float_chunk_points_def)
  have l: "list_all (\<lambda>ch. list_all (\<lambda>p. \<not> is_nan (fst p)) (float_chunk_points ch))
        [FloatScalarChunk (Finite 3) (Finite 30), FloatScalarChunk PosInf (Finite 10),
         FloatArrayChunk [Finite 2, Finite 3, NegInf, PosInf] [Finite 20, Finite 31, Finite 5, NaN 0]]"
    using h3 unfolding list_all_iff .
  show ?thesis
    using e l example_float_buffer_times float_buffer_times_strictly_increasing [OF h1 h2 h3]
    by simp
qed

text \<open>
  Claim C3 as stated fails on NaN times: a NaN is smaller than no number and no number is
  smaller than it, so the binary search answers 0 whenever it meets only NaN on its way,
  and a NaN is never found among the buffered times unless it is the same object. The
  array with the times NaN, 1, NaN leaves the buffered times NaN, 1, NaN.
\<close>

theorem nan_times_not_strictly_increasing:
  "float_buffer_times
     (float_add_data_chunk
        (FloatArrayChunk [NaN 0, Finite 1, NaN 1] [Finite 10, Finite 20, Finite 30])
        (float_init :: string float_buffers)) = [NaN 1, Finite 1, NaN 0]
   \<and> \<not> sorted_wrt float_lt [NaN 1, Finite 1, NaN 0]"
  by (simp add: float_eval_defs)

text \<open>
  Claim C4, as amended. For a time \<open>t\<close> that is not a NaN: adding \<open>(t, v)\<close> when \<open>t\<close> is
  already buffered leaves the three buffers as they are, whatever \<open>v\<close> is; so a second
  insertion of the same time, with any value, changes nothing after the first.
\<close>

theorem float_add_data_chunk_idempotent:
  assumes "\<not> is_nan t"
  shows "(t \<in> set (float_buffer_times b) \<longrightarrow>
      float_buffer_times (float_add_data_chunk (FloatScalarChunk t v) b) = float_buffer_times b
    \<and> float_buffer_biomass (float_add_data_chunk (FloatScalarChunk t v) b) = float_buffer_biomass b
    \<and> float_buffer_N_by_lineage (float_add_data_chunk (FloatScalarChunk t v) b)
        = float_buffer_N_by_lineage b)
   \<and> float_buffer_times (float_add_data_chunk (FloatScalarChunk t v2)
        (float_add_data_chunk (FloatScalarChunk t v1) b))
       = float_buffer_times (float_add_data_chunk (FloatScalarChunk t v1) b)
   \<and> float_buffer_biomass (float_add_data_chunk (FloatScalarChunk t v2)
        (float_add_data_chunk (FloatScalarChunk t v1) b))
       = float_buffer_biomass (float_add_data_chunk (FloatScalarChunk t v1) b)
   \<and> float_buffer_N_by_lineage (float_add_data_chunk (FloatScalarChunk t v2)
        (float_add_data_chunk (FloatScalarChunk t v1) b))
       = float_buffer_N_by_lineage (float_add_data_chunk (FloatScalarChunk t v1) b)"
proof -
  have pts: "float_chunk_points (FloatScalarChunk t w) = [(t, w)]" for w
    by (simp add: float_chunk_points_def)
  have present: "t \<in> set (float_buffer_times b') \<Longrightarrow>
      float_buffer_times (float_add_data_chunk (FloatScalarChunk t w) b') = float_buffer_times b'
    \<and> float_buffer_biomass (float_add_data_chunk (FloatScalarChunk t w) b') = float_buffer_biomass b'
    \<and> float_buffer_N_by_lineage (float_add_data_chunk (FloatScalarChunk t w) b')
        = float_buffer_N_by_lineage b'"
    for w and b' :: "'a float_buffers"
    by (simp add: float_add_data_chunk_def pts float_insert_point_present float_in_same)
  have "t \<in> set (float_buffer_times (float_insert_point b (t, v1)))"
    using float_in_iff [OF assms, of "float_buffer_times b"]
    by (simp add: float_buffer_times_insert_point)
  then have "t \<in> set (float_buffer_times (float_add_data_chunk (FloatScalarChunk t v1) b))"
    by (simp add: float_add_data_chunk_def pts)
  then show ?thesis using present by blast
qed

lemma example_float_first_insertion:
  "float_buffer_times (float_add_data_chunk (FloatScalarChunk (Finite 1) (Finite 10))
       (float_init :: string float_buffers)) = [Finite 1]
   \<and> float_buffer_biomass (float_add_data_chunk (FloatScalarChunk (Finite 1) (Finite 10))
       (float_init :: string float_buffers)) = [Finite 10]"
  by (simp add: float_eval_defs)

theorem float_add_data_chunk_idempotent_witness:
  "\<not> is_nan (Finite 1)
   \<and> Finite 1 \<in> set (float_buffer_times (float_add_data_chunk (FloatScalarChunk (Finite 1) (Finite 10))
        (float_init :: string float_buffers)))
   \<and> float_buffer_times (float_add_data_chunk (FloatScalarChunk (Finite 1) (Finite 99))
        (float_add_data_chunk (FloatScalarChunk (Finite 1) (Finite 10))
           (float_init :: string float_buffers))) = [Finite 1]
   \<and> float_buffer_biomass (float_add_data_chunk (FloatScalarChunk (Finite 1) (Finite 99))
        (float_add_data_chunk (FloatScalarChunk (Finite 1) (Finite 10))
           (float_init :: string float_buffers))) = [Finite 10]"
proof -
  have h: "\<not> is_nan (Finite 1)"
    by simp
  show ?thesis
    using h float_add_data_chunk_idempotent [OF h,
        of "float_add_data_chunk (FloatScalarChunk (Finite 1) (Finite 10))
              (float_init :: string float_buffers)" "Finite 99" "Finite 99" "Finite 10"]
    by (simp add: example_float_first_insertion)
qed

text \<open>
  Claim C4 as stated fails on NaN times: after \<^verbatim>\<open>add_data_chunk(float('nan'), 1.0)\<close> a
  second \<^verbatim>\<open>add_data_chunk(float('nan'), 2.0)\<close> does not find its NaN, which is another
  object, among the buffered times, and inserts it in front.
\<close>

theorem nan_time_inserted_again:
  "float_buffer_times (float_add_data_chunk (FloatScalarChunk (NaN 0) (Finite 1))
       (float_init :: string float_buffers)) = [NaN 0]
   \<and> float_buffer_times (float_add_data_chunk (FloatScalarChunk (NaN 1) (Finite 2))
       (float_add_data_chunk (FloatScalarChunk (NaN 0) (Finite 1))
          (float_init :: string float_buffers))) = [NaN 1, NaN 0]
   \<and> float_buffer_biomass (float_add_data_chunk (FloatScalarChunk (NaN 1) (Finite 2))
       (float_add_data_chunk (FloatScalarChunk (NaN 0) (Finite 1))
          (float_init :: string float_buffers))) = [Finite 2, Finite 1]"
  by (simp add: float_eval_defs)

text \<open>
  The same NaN object, given a second time as a scalar time, is found by its identity and
  skipped.
\<close>

lemma example_same_nan_object:
  "float_buffer_times (float_add_data_chunk (FloatScalarChunk (NaN 0) (Finite 2))
       (float_add_data_chunk (FloatScalarChunk (NaN 0) (Finite 1))
          (float_init :: string float_buffers))) = [NaN 0]
   \<and> float_buffer_biomass (float_add_data_chunk (FloatScalarChunk (NaN 0) (Finite 2))
       (float_add_data_chunk (FloatScalarChunk (NaN 0) (Finite 1))
          (float_init :: string float_buffers))) = [Finite 1]"
  by (simp add: float_eval_defs)

section \<open>Alignment of the three buffers\<close>

lemma fold_err_invariant:
  assumes "\<And>s x. P s \<Longrightarrow> \<exists>s'. f s x = Inr s' \<and> P s'" and "P s"
  shows "\<exists>s'. fold_err f s xs = Inr s' \<and> P s'"
  using assms(2)
proof (induction xs arbitrary: s)
  case Nil
  then show ?case by simp
next
  case (Cons x xs)
  from assms(1)[OF Cons.prems] obtain s1 where s1: "f s x = Inr s1" "P s1" by blast
  from Cons.IH[OF s1(2)] show ?case using s1(1) by simp
qed

lemma index_of_less: "t \<in> set xs \<Longrightarrow> index_of xs t < length xs"
  unfolding index_of_def
  by (induction xs) auto

lemma nth_index_of: "t \<in> set xs \<Longrightarrow> xs ! index_of xs t = t"
  unfolding index_of_def
  by (induction xs) auto

lemma store_abundance_in_range:
  "idx < length Ns \<Longrightarrow>
     store_abundance idx lid v Ns = Inr (Ns[idx := (Ns ! idx)(lid \<mapsto> v)])"
  by (simp add: store_abundance_def)

lemma set_abundance_length:
  assumes "idx < length Ns"
  shows "\<exists>Ns'. set_abundance N i idx Ns p = Inr Ns' \<and> length Ns' = length Ns"
  using assms
  by (auto simp: set_abundance_def Let_def store_abundance_in_range split: sum.splits)

lemma store_epoch_time_length:
  assumes "length Ns = length btimes"
  shows "\<exists>Ns'. store_epoch_time N ids btimes Ns p = Inr Ns' \<and> length Ns' = length btimes"
proof (cases "snd p \<in> set btimes")
  case False
  then show ?thesis using assms by (simp add: store_epoch_time_def Let_def)
next
  case True
  let ?idx = "index_of btimes (snd p)"
  have idx: "?idx < length btimes" using True by (rule index_of_less)
  have "\<exists>Ns'. fold_err (set_abundance N (fst p) ?idx) Ns (enumerate 0 ids) = Inr Ns'
          \<and> length Ns' = length btimes"
  proof (rule fold_err_invariant[where P = "\<lambda>Ns. length Ns = length btimes"])
    fix s x assume "length (s :: ('a \<rightharpoonup> real) list) = length btimes"
    then show "\<exists>s'. set_abundance N (fst p) ?idx s x = Inr s' \<and> length s' = length btimes"
      using set_abundance_length[of ?idx s N "fst p" x] idx by auto
  qed (rule assms)
  then show ?thesis using True by (simp add: store_epoch_time_def Let_def)
qed

lemma add_multi_type_data_chunk_aligned:
  assumes "aligned c"
  shows "\<exists>c'. add_multi_type_data_chunk t N ids c = Inr c' \<and> aligned c'"
proof -
  let ?c2 = "detect_mutation (epoch_t_list t N) (epoch_lineageIDs N ids) (update_registry ids c)"
  have len: "length (buffer_N_by_lineage ?c2) = length (buffer_times ?c2)"
    using assms by (simp add: aligned_def)
  have "\<exists>Ns'. fold_err (store_epoch_time N (epoch_lineageIDs N ids) (buffer_times ?c2))
            (buffer_N_by_lineage ?c2) (enumerate 0 (epoch_t_list t N)) = Inr Ns'
          \<and> length Ns' = length (buffer_times ?c2)"
  proof (rule fold_err_invariant[where P = "\<lambda>Ns. length Ns = length (buffer_times ?c2)"])
    fix s x assume "length (s :: ('a \<rightharpoonup> real) list) = length (buffer_times ?c2)"
    then show "\<exists>s'. store_epoch_time N (epoch_lineageIDs N ids) (buffer_times ?c2) s x = Inr s'
                 \<and> length s' = length (buffer_times ?c2)"
      by (rule store_epoch_time_length)
  qed (rule len)
  then obtain Ns' where Ns': "fold_err (store_epoch_time N (epoch_lineageIDs N ids) (buffer_times ?c2))
            (buffer_N_by_lineage ?c2) (enumerate 0 (epoch_t_list t N)) = Inr Ns'"
      "length Ns' = length (buffer_times ?c2)" by blast
  show ?thesis
    using Ns' assms by (simp add: add_multi_type_data_chunk_def Let_def aligned_def)
qed

lemma interpolate_biomass_aligned:
  "length (buffer_biomass c) = length (buffer_times c) \<Longrightarrow> snd (interpolate_biomass t c) = c"
  by (simp add: interpolate_biomass_def Let_def)

lemma interpolate_multi_type_abundance_aligned:
  "length (buffer_N_by_lineage c) = length (buffer_times c) \<Longrightarrow>
     snd (interpolate_multi_type_abundance t c) = c"
  by (simp add: interpolate_multi_type_abundance_def Let_def)

lemma get_next_frame_aligned: "aligned c \<Longrightarrow> aligned (snd (get_next_frame d c))"
  by (simp add: get_next_frame_def Let_def split_def interpolate_biomass_aligned aligned_def)

lemma aligned_init: "aligned (init s bc bl)"
  by (simp add: aligned_def init_def)

lemma aligned_reset: "aligned (reset c)"
  by (simp add: aligned_def reset_def)

lemma step_aligned:
  assumes "aligned c"
  shows "\<exists>c'. step x c = Inr c' \<and> aligned c'"
proof (cases x)
  case (AddMultiTypeDataChunk t N ids)
  then show ?thesis using add_multi_type_data_chunk_aligned[OF assms] by simp
next
  case (InterpolateBiomass t)
  then show ?thesis using assms by (simp add: interpolate_biomass_aligned aligned_def)
next
  case (InterpolateMultiTypeAbundance t)
  then show ?thesis using assms by (simp add: interpolate_multi_type_abundance_aligned aligned_def)
qed (use assms in \<open>simp_all add: aligned_add_data_chunk get_next_frame_aligned aligned_reset\<close>,
     simp_all add: aligned_def play_def pause_def set_speed_def)

lemma run_aligned:
  "aligned c \<Longrightarrow> \<exists>c'. run xs c = Inr c' \<and> aligned c'"
proof (induction xs arbitrary: c)
  case Nil
  then show ?case by simp
next
  case (Cons x xs)
  from step_aligned[OF Cons.prems] obtain c1 where c1: "step x c = Inr c1" "aligned c1" by blast
  from Cons.IH[OF c1(2)] show ?case using c1(1) by simp
qed

text \<open>
  Claim C9. After any sequence of operations on a freshly constructed controller (every
  call returns), the three buffers have the same length; so the length-mismatch branches
  of the two interpolation functions are not taken there, and an interpolation query
  leaves the controller as it is.
\<close>

theorem buffers_aligned_after_operations:
  "\<exists>c. run xs (init default_speed critical low) = Inr c
       \<and> length (buffer_times c) = length (buffer_biomass c)
       \<and> length (buffer_biomass c) = length (buffer_N_by_lineage c)
       \<and> (\<forall>t. snd (interpolate_biomass t c) = c)
       \<and> (\<forall>t. snd (interpolate_multi_type_abundance t c) = c)"
proof -
  obtain c where c: "run xs (init default_speed critical low) = Inr c" "aligned c"
    using run_aligned [OF aligned_init] by blast
  then show ?thesis
    by (auto simp: aligned_def interpolate_biomass_aligned interpolate_multi_type_abundance_aligned)
qed

section \<open>The lineage registry\<close>

lemma register_lineage_keeps:
  "lineage_to_global_idx reg lid = Some k \<Longrightarrow>
     lineage_to_global_idx (register_lineage reg l) lid = Some k"
  by (auto simp: register_lineage_def Let_def)

lemma register_lineage_extends:
  "\<exists>ys. global_lineage_list (register_lineage reg l) = global_lineage_list reg @ ys"
  by (simp add: register_lineage_def Let_def)

lemma foldl_register_lineage_keeps:
  "lineage_to_global_idx reg lid = Some k \<Longrightarrow>
     lineage_to_global_idx (foldl register_lineage reg ls) lid = Some k"
  by (induction ls arbitrary: reg) (simp_all add: register_lineage_keeps)

lemma foldl_register_lineage_extends:
  "\<exists>ys. global_lineage_list (foldl register_lineage reg ls) = global_lineage_list reg @ ys"
proof (induction ls arbitrary: reg)
  case Nil
  then show ?case by simp
next
  case (Cons l ls)
  have "\<exists>ys. global_lineage_list (register_lineage reg l) = global_lineage_list reg @ ys"
    by (rule register_lineage_extends)
  then obtain ys where ys: "global_lineage_list (register_lineage reg l) = global_lineage_list reg @ ys" ..
  have "\<exists>zs. global_lineage_list (foldl register_lineage (register_lineage reg l) ls)
      = global_lineage_list (register_lineage reg l) @ zs"
    by (rule Cons.IH)
  then obtain zs where zs: "global_lineage_list (foldl register_lineage (register_lineage reg l) ls)
      = global_lineage_list (register_lineage reg l) @ zs" ..
  have "global_lineage_list (foldl register_lineage reg (l # ls)) = global_lineage_list reg @ (ys @ zs)"
    by (simp add: ys zs)
  then show ?case by (rule exI)
qed

lemma registry_extends_refl: "registry_extends reg reg"
  by (simp add: registry_extends_def)

lemma registry_extends_trans:
  "registry_extends r1 r2 \<Longrightarrow> registry_extends r2 r3 \<Longrightarrow> registry_extends r1 r3"
  by (auto simp: registry_extends_def)

lemma registry_extends_foldl: "registry_extends reg (foldl register_lineage reg ls)"
  using foldl_register_lineage_extends[of reg ls]
  by (simp add: registry_extends_def foldl_register_lineage_keeps)

lemma update_registry_extends:
  "registry c = Some reg \<Longrightarrow>
     \<exists>reg'. registry (update_registry ids c) = Some reg' \<and> registry_extends reg reg'"
  by (simp add: update_registry_def registry_extends_foldl)

lemma registry_add_multi:
  assumes "add_multi_type_data_chunk t N ids c = Inr c'"
  shows "registry c' = registry (update_registry ids c)"
  using assms by (auto simp: add_multi_type_data_chunk_def Let_def split: sum.splits)

lemma step_registry_extends:
  assumes "registry c = Some reg" "step x c = Inr c'"
  shows "\<exists>reg'. registry c' = Some reg' \<and> registry_extends reg reg'"
proof (cases x)
  case (AddMultiTypeDataChunk t N ids)
  then show ?thesis
    using assms update_registry_extends[OF assms(1), of ids] by (simp add: registry_add_multi)
qed (use assms in \<open>auto simp: registry_extends_refl play_def pause_def set_speed_def reset_def\<close>)

lemma run_registry_extends:
  "registry c = Some reg \<Longrightarrow> run xs c = Inr c' \<Longrightarrow>
     \<exists>reg'. registry c' = Some reg' \<and> registry_extends reg reg'"
proof (induction xs arbitrary: c reg)
  case Nil
  then show ?case by (auto simp: registry_extends_refl)
next
  case (Cons x xs)
  from Cons.prems(2) obtain c1 where c1: "step x c = Inr c1" "run xs c1 = Inr c'"
    by (auto split: sum.splits)
  from step_registry_extends[OF Cons.prems(1) c1(1)] obtain r1 where
    r1: "registry c1 = Some r1" "registry_extends reg r1" by blast
  from Cons.IH[OF r1(1) c1(2)] obtain r2 where "registry c' = Some r2" "registry_extends r1 r2"
    by blast
  then show ?case using r1(2) registry_extends_trans by blast
qed

text \<open>
  Claim C10. \<open>reset\<close> empties the three buffers, the current lineage identifiers and the
  mutation events and sets both times to 0, and it leaves the global lineage registry as
  it is; whatever operations follow the reset (each of them returns), every ordinal of
  the registry is still the same and the list of lineages has only grown at its end.
\<close>

theorem reset_keeps_registry:
  "buffer_times (reset c) = [] \<and> buffer_biomass (reset c) = []
   \<and> buffer_N_by_lineage (reset c) = [] \<and> current_lineageIDs (reset c) = []
   \<and> mutation_events (reset c) = []
   \<and> animation_time (reset c) = 0 \<and> integration_time (reset c) = 0
   \<and> registry (reset c) = registry c
   \<and> (registry c = Some reg \<longrightarrow>
        (\<exists>c' reg'. run xs (reset c) = Inr c' \<and> registry c' = Some reg'
           \<and> (\<forall>lid k. lineage_to_global_idx reg lid = Some k
                  \<longrightarrow> lineage_to_global_idx reg' lid = Some k)
           \<and> (\<exists>ys. global_lineage_list reg' = global_lineage_list reg @ ys)))"
proof -
  have fields: "buffer_times (reset c) = [] \<and> buffer_biomass (reset c) = []
   \<and> buffer_N_by_lineage (reset c) = [] \<and> current_lineageIDs (reset c) = []
   \<and> mutation_events (reset c) = []
   \<and> animation_time (reset c) = 0 \<and> integration_time (reset c) = 0
   \<and> registry (reset c) = registry c"
    by (simp add: reset_def)
  have "\<exists>c' reg'. run xs (reset c) = Inr c' \<and> registry c' = Some reg'
           \<and> registry_extends reg reg'" if r: "registry c = Some reg"
  proof -
    obtain c' where c': "run xs (reset c) = Inr c'"
      using run_aligned[OF aligned_reset] by blast
    have "registry (reset c) = Some reg" using r fields by simp
    from run_registry_extends[OF this c'] show ?thesis using c' by blast
  qed
  then show ?thesis using fields unfolding registry_extends_def by blast
qed

theorem reset_keeps_registry_witness:
  "registry ((init 1 100 1000 :: string controller)
      \<lparr> registry := Some \<lparr> lineage_to_global_idx = [''A'' \<mapsto> 0], global_lineage_list = [''A''] \<rparr> \<rparr>)
     = Some \<lparr> lineage_to_global_idx = [''A'' \<mapsto> 0], global_lineage_list = [''A''] \<rparr>
   \<and> (\<exists>c' reg'.
        run [AddMultiTypeDataChunk (ScalarTime 1) (Arr2 1 [[7], [5]]) [''B'', ''A'']]
          (reset ((init 1 100 1000 :: string controller)
             \<lparr> registry := Some \<lparr> lineage_to_global_idx = [''A'' \<mapsto> 0],
                                   global_lineage_list = [''A''] \<rparr> \<rparr>)) = Inr c'
        \<and> registry c' = Some reg' \<and> lineage_to_global_idx reg' ''A'' = Some 0)"
proof -
  let ?reg = "\<lparr> lineage_to_global_idx = [''A'' \<mapsto> (0::nat)], global_lineage_list = [''A''] \<rparr>"
  let ?c = "(init 1 100 1000 :: string controller)\<lparr> registry := Some ?reg \<rparr>"
  have h: "registry ?c = Some ?reg"
    by simp
  have k: "lineage_to_global_idx ?reg ''A'' = Some 0"
    by simp
  show ?thesis
    using h k reset_keeps_registry
      [of ?c ?reg "[AddMultiTypeDataChunk (ScalarTime 1) (Arr2 1 [[7], [5]]) [''B'', ''A'']]"]
    by blast
qed

section \<open>Mutation events\<close>

text \<open>
  On an epoch that satisfies the contract of \<^verbatim>\<open>add_multi_type_data_chunk\<close> nothing is cut:
  the lineage identifiers and the times are used as given.
\<close>

lemma epoch_well_formed:
  "shape0 N = length ids \<Longrightarrow> epoch_lineageIDs N ids = ids"
  "length ts = ncols \<Longrightarrow> epoch_t_list (ArrayTimes ts) (Arr2 ncols rows) = ts"
  "epoch_t_list (ScalarTime t) (Arr2 1 rows) = [t]"
  "epoch_t_list (ScalarTime t) (Arr1 xs) = [t]"
  by (simp_all add: epoch_lineageIDs_def epoch_t_list_def)

lemma mutation_events_add_multi:
  assumes "add_multi_type_data_chunk t N ids c = Inr c'"
  shows "mutation_events c' = mutation_events (detect_mutation (epoch_t_list t N) (epoch_lineageIDs N ids) c)"
  using assms
  by (auto simp: add_multi_type_data_chunk_def Let_def detect_mutation_def split: sum.splits)

text \<open>
  One epoch on aligned buffers: the call returns, the identifiers of the epoch replace
  the held ones, and the log grows by the last time of the epoch if the epoch has a time
  and more identifiers than the controller held.
\<close>

lemma mutation_events_add_epoch:
  assumes "aligned c"
  shows "\<exists>c'. add_epoch e c = Inr c' \<and> aligned c'
     \<and> length (current_lineageIDs c') = epoch_count e
     \<and> mutation_events c' =
         (case epoch_last_time e of
            Some t \<Rightarrow> if length (current_lineageIDs c) < epoch_count e
                      then mutation_events c @ [t] else mutation_events c
          | None \<Rightarrow> mutation_events c)"
proof -
  obtain t N ids where e: "e = (t, N, ids)"
    by (cases e)
  obtain c' where c': "add_multi_type_data_chunk t N ids c = Inr c'" and al: "aligned c'"
    using add_multi_type_data_chunk_aligned [OF assms] by blast
  have "mutation_events c' =
         (if length (current_lineageIDs c) < length (epoch_lineageIDs N ids)
             \<and> epoch_t_list t N \<noteq> []
          then mutation_events c @ [last (epoch_t_list t N)]
          else mutation_events c)"
    by (simp add: mutation_events_add_multi [OF c'] detect_mutation_def Let_def)
  then show ?thesis
    using c' al add_multi_type_data_chunk_frame(6) [OF c']
    by (simp add: e add_epoch_def epoch_count_def epoch_last_time_def)
qed

lemma mutation_events_add_epochs:
  "aligned c \<Longrightarrow> length (current_lineageIDs c) = epoch_count previous \<Longrightarrow>
   \<exists>c'. add_epochs es c = Inr c'
      \<and> mutation_events c' = mutation_events c @ events_after previous es"
proof (induction es arbitrary: c previous)
  case Nil
  then show ?case by (simp add: add_epochs_def)
next
  case (Cons e es)
  obtain c1 where c1: "add_epoch e c = Inr c1" "aligned c1"
      "length (current_lineageIDs c1) = epoch_count e"
    and ev: "mutation_events c1 =
         (case epoch_last_time e of
            Some t \<Rightarrow> if length (current_lineageIDs c) < epoch_count e
                      then mutation_events c @ [t] else mutation_events c
          | None \<Rightarrow> mutation_events c)"
    using mutation_events_add_epoch [OF Cons.prems(1), of e] by blast
  obtain c' where c': "add_epochs es c1 = Inr c'"
      "mutation_events c' = mutation_events c1 @ events_after e es"
    using Cons.IH [OF c1(2,3)] by blast
  have run: "add_epochs (e # es) c = Inr c'"
    using c1(1) c'(1) by (simp add: add_epochs_def)
  have "mutation_events c' = mutation_events c @ events_after previous (e # es)"
    using c'(2) ev Cons.prems(2) by (simp split: option.splits)
  then show ?case using run by blast
qed

text \<open>
  Claim C7, as amended. Feed an epoch \<open>e\<close> and then the epochs \<open>es\<close> to a controller with
  aligned buffers. Every call returns, and what the epochs \<open>es\<close> add to the log is one
  event for each of them that has a time and more lineage identifiers than the epoch
  before it, and nothing else; the event is the last time of that epoch.
\<close>

theorem mutation_events_after_first_epoch:
  assumes "aligned c"
  shows "\<exists>c1 c'. add_epoch e c = Inr c1 \<and> add_epochs es c1 = Inr c'
     \<and> mutation_events c' = mutation_events c1 @ events_after e es"
proof -
  obtain c1 where c1: "add_epoch e c = Inr c1" "aligned c1"
      "length (current_lineageIDs c1) = epoch_count e"
    using mutation_events_add_epoch [OF assms, of e] by blast
  obtain c' where "add_epochs es c1 = Inr c'"
      "mutation_events c' = mutation_events c1 @ events_after e es"
    using mutation_events_add_epochs [OF c1(2,3)] by blast
  then show ?thesis using c1(1) by blast
qed

lemma example_events_after:
  "events_after (ScalarTime 1, Arr2 1 [[5]], [''A''])
     [(ScalarTime 2, Arr2 1 [[5]], [''A'']),
      (ScalarTime 3, Arr2 1 [[5], [1], [1]], [''A'', ''B'', ''C''])] = [3]"
  by (simp add: epoch_count_def epoch_last_time_def epoch_lineageIDs_def epoch_t_list_def)

theorem mutation_events_after_first_epoch_witness:
  "aligned (init 1 100 1000 :: string controller)
   \<and> (\<exists>c1 c'. add_epoch (ScalarTime 1, Arr2 1 [[5]], [''A'']) (init 1 100 1000) = Inr c1
        \<and> add_epochs [(ScalarTime 2, Arr2 1 [[5]], [''A'']),
                       (ScalarTime 3, Arr2 1 [[5], [1], [1]], [''A'', ''B'', ''C''])] c1 = Inr c'
        \<and> mutation_events c' = mutation_events c1 @ [3])"
proof -
  have h: "aligned (init 1 100 1000 :: string controller)"
    by (rule aligned_init)
  show ?thesis
    using h mutation_events_after_first_epoch [OF h, of "(ScalarTime 1, Arr2 1 [[5]], [''A''])"
        "[(ScalarTime 2, Arr2 1 [[5]], [''A'']),
          (ScalarTime 3, Arr2 1 [[5], [1], [1]], [''A'', ''B'', ''C''])]",
        unfolded example_events_after]
    by (rule conjI)
qed

text \<open>
  Claim C7 as stated fails on the time of the event: in the second epoch below, with the
  times 1, 2, 3, the lineage \<open>B\<close> is first observed at time 1, and the event that this
  epoch adds to the log is the time 3.
\<close>

theorem mutation_event_at_last_time_of_epoch:
  "map_sum id mutation_events
     (add_epochs [(ScalarTime 0, Arr2 1 [[5]], [''A'']),
                  (ArrayTimes [1, 2, 3], Arr2 3 [[5, 6, 7], [1, 2, 3]], [''A'', ''B''])]
        (init 1 100 1000)) = Inr [0, 3]"
  by (simp add: eval_defs add_epochs_def add_epoch_def)

section \<open>Multi-type interpolation between two samples\<close>




text \<open>The same buffers built by the operations themselves.\<close>

lemma example_entity_interpolation:
  "map_sum id (\<lambda>c. fst (interpolate_multi_type_abundance 5 c))
     (run [AddDataChunk (ArrayChunk [0, 10] [7, 9]),
           AddMultiTypeDataChunk (ScalarTime 0) (Arr2 1 [[1]]) [''A''],
           AddMultiTypeDataChunk (ScalarTime 10) (Arr2 1 [[2], [4]]) [''A'', ''B'']]
        (init 1 100 1000))
   = Inr [''A'' \<mapsto> 3 / 2, ''B'' \<mapsto> 2]"
  by (simp add: eval_defs interpolate_multi_type_abundance_def fun_eq_iff)

section \<open>Animation time\<close>

lemma get_speed_factor_nonneg: "0 \<le> get_speed_factor c"
proof -
  let ?gap = "integration_time c - animation_time c"
  consider "?gap < buffer_critical c"
    | "\<not> ?gap < buffer_critical c" "?gap < buffer_low c"
    | "\<not> ?gap < buffer_critical c" "\<not> ?gap < buffer_low c" by blast
  then show ?thesis
  proof cases
    case 1
    then show ?thesis by (simp add: get_speed_factor_def Let_def)
  next
    case 2
    then have "0 \<le> (?gap - buffer_critical c) / (buffer_low c - buffer_critical c)"
      by (intro divide_nonneg_nonneg) simp_all
    then show ?thesis using 2 by (simp add: get_speed_factor_def Let_def)
  next
    case 3
    then show ?thesis by (simp add: get_speed_factor_def Let_def)
  qed
qed

lemma animation_time_get_next_frame:
  "animation_time (snd (get_next_frame d c)) =
     (if is_playing c \<and> buffer_times c \<noteq> []
      then min (animation_time c + d * animation_speed c * get_speed_factor c) (integration_time c)
      else animation_time c)"
  by (simp add: get_next_frame_def Let_def split_def min_def)

lemma buffers_get_next_frame:
  "aligned c \<Longrightarrow> buffer_times (snd (get_next_frame d c)) = buffer_times c"
  by (simp add: get_next_frame_def Let_def split_def interpolate_biomass_aligned aligned_def)

lemma chunk_points_times: "fst ` set (chunk_points ch) \<subseteq> set (fst (chunk_lists ch))"
proof
  fix t assume "t \<in> fst ` set (chunk_points ch)"
  then obtain b where "(t, b) \<in> set (chunk_points ch)" by auto
  then show "t \<in> set (fst (chunk_lists ch))"
    by (auto simp: chunk_points_def Let_def split_def split: if_splits
        dest!: set_zip_leftD in_set_takeD)
qed

lemma integration_time_add_data_chunk:
  "integration_time (add_data_chunk ch c) =
     (if buffer_times (add_data_chunk ch c) = [] then integration_time c
      else last (buffer_times (add_data_chunk ch c)))"
  by (simp add: add_data_chunk_def update_integration_time_def)

lemma set_buffer_times_add_data_chunk:
  "set (buffer_times (add_data_chunk ch c)) = fst ` set (chunk_points ch) \<union> set (buffer_times c)"
  by (simp add: add_data_chunk_def set_buffer_times_foldl_insert_point)

lemma playback_inv_add_data_chunk:
  assumes "playback_inv c" "\<forall>t \<in> set (fst (chunk_lists ch)). 0 \<le> t"
  shows "playback_inv (add_data_chunk ch c)"
proof -
  let ?c' = "add_data_chunk ch c"
  have al: "aligned ?c'" using assms(1) by (simp add: playback_inv_def aligned_add_data_chunk)
  have so: "sorted_wrt (<) (buffer_times ?c')"
    using assms(1) by (simp add: playback_inv_def sorted_add_data_chunk)
  have nn: "\<forall>t \<in> set (buffer_times ?c'). 0 \<le> t"
    using assms chunk_points_times[of ch]
    by (auto simp: set_buffer_times_add_data_chunk playback_inv_def)
  have sub: "set (buffer_times c) \<subseteq> set (buffer_times ?c')"
    by (auto simp: set_buffer_times_add_data_chunk)
  have le: "animation_time ?c' \<le> integration_time ?c'"
  proof (cases "buffer_times ?c' = []")
    case True
    then show ?thesis using assms(1) by (simp add: integration_time_add_data_chunk playback_inv_def)
  next
    case False
    have s: "sorted (buffer_times ?c')" using so by (rule strictly_increasing_sorted)
    have "integration_time c \<le> last (buffer_times ?c')"
    proof (cases "buffer_times c = []")
      case True
      have "last (buffer_times ?c') \<in> set (buffer_times ?c')" using False by simp
      then have "0 \<le> last (buffer_times ?c')" using nn by blast
      then show ?thesis using True assms(1) by (simp add: playback_inv_def)
    next
      case ne: False
      then have "last (buffer_times c) \<in> set (buffer_times ?c')" using sub by auto
      then have "last (buffer_times c) \<le> last (buffer_times ?c')" using s by (simp add: sorted_le_last)
      then show ?thesis using ne assms(1) by (simp add: playback_inv_def)
    qed
    then show ?thesis
      using False assms(1) by (simp add: integration_time_add_data_chunk playback_inv_def)
  qed
  have emp: "buffer_times ?c' = [] \<Longrightarrow> buffer_times c = []"
    using sub by auto
  show ?thesis
    unfolding playback_inv_def
    using al so nn le assms(1) emp
    by (auto simp: integration_time_add_data_chunk playback_inv_def split: if_splits)
qed

lemma playback_inv_add_multi:
  assumes "playback_inv c"
  shows "\<exists>c'. add_multi_type_data_chunk t N ids c = Inr c' \<and> playback_inv c'
            \<and> animation_time c' = animation_time c"
proof -
  have "aligned c" using assms by (simp add: playback_inv_def)
  then obtain c' where c': "add_multi_type_data_chunk t N ids c = Inr c'" "aligned c'"
    using add_multi_type_data_chunk_aligned by blast
  have i: "integration_time c' =
     (if buffer_times c = [] then integration_time c else last (buffer_times c))"
    using c'(1)
    by (auto simp: add_multi_type_data_chunk_def Let_def update_integration_time_def
        split: sum.splits)
  show ?thesis
    using c' assms i add_multi_type_data_chunk_frame[OF c'(1)]
    by (auto simp: playback_inv_def)
qed

lemma playback_inv_get_next_frame:
  assumes "playback_inv c" "0 \<le> d"
  shows "playback_inv (snd (get_next_frame d c))"
    and "animation_time c \<le> animation_time (snd (get_next_frame d c))"
proof -
  have al: "aligned c" using assms(1) by (simp add: playback_inv_def)
  have "0 \<le> d * animation_speed c * get_speed_factor c"
    using assms get_speed_factor_nonneg[of c] by (simp add: playback_inv_def)
  then show mono: "animation_time c \<le> animation_time (snd (get_next_frame d c))"
    using assms(1) by (auto simp: animation_time_get_next_frame playback_inv_def split: if_splits)
  have "animation_time (snd (get_next_frame d c)) \<le> integration_time c"
    using assms(1) by (auto simp: animation_time_get_next_frame playback_inv_def split: if_splits)
  then show "playback_inv (snd (get_next_frame d c))"
    using assms(1) al get_next_frame_aligned[OF al, of d]
    by (simp add: playback_inv_def buffers_get_next_frame)
qed

lemma playback_inv_step:
  assumes "playback_inv c" "nonneg_input x"
  shows "\<exists>c'. step x c = Inr c' \<and> playback_inv c'
           \<and> (x \<noteq> Reset \<longrightarrow> animation_time c \<le> animation_time c')"
proof (cases x)
  case (AddDataChunk ch)
  then show ?thesis using assms playback_inv_add_data_chunk[of c ch] by simp
next
  case (AddMultiTypeDataChunk t N ids)
  then show ?thesis using playback_inv_add_multi[OF assms(1), of t N ids] by auto
next
  case (GetNextFrame d)
  then show ?thesis using assms playback_inv_get_next_frame[of c d] by simp
next
  case (InterpolateBiomass t)
  then show ?thesis using assms(1)
    by (simp add: interpolate_biomass_aligned playback_inv_def aligned_def)
next
  case (InterpolateMultiTypeAbundance t)
  then show ?thesis using assms(1)
    by (simp add: interpolate_multi_type_abundance_aligned playback_inv_def aligned_def)
next
  case Play
  then show ?thesis using assms(1) by (simp add: play_def playback_inv_def aligned_def)
next
  case Pause
  then show ?thesis using assms(1) by (simp add: pause_def playback_inv_def aligned_def)
next
  case (SetSpeed v)
  then show ?thesis using assms(1) by (simp add: set_speed_def playback_inv_def aligned_def)
next
  case Reset
  then show ?thesis using assms(1) by (simp add: reset_def playback_inv_def aligned_def)
qed

lemma playback_inv_run:
  "playback_inv c \<Longrightarrow> \<forall>x \<in> set xs. nonneg_input x \<Longrightarrow>
     \<exists>c'. run xs c = Inr c' \<and> playback_inv c'"
proof (induction xs arbitrary: c)
  case Nil
  then show ?case by simp
next
  case (Cons x xs)
  from Cons.prems have "nonneg_input x" by simp
  from playback_inv_step[OF Cons.prems(1) this] obtain c1 where
    c1: "step x c = Inr c1" "playback_inv c1" by blast
  from Cons.prems have "\<forall>x \<in> set xs. nonneg_input x" by simp
  from Cons.IH[OF c1(2) this] show ?case using c1(1) by simp
qed

lemma playback_inv_init: "0 \<le> default_speed \<Longrightarrow> playback_inv (init default_speed critical low)"
  by (simp add: playback_inv_def init_def aligned_def)

text \<open>
  Claim C1, as amended. Take a controller constructed with a speed that is not negative
  and any sequence of operations on it whose data chunks carry no negative time and whose
  ticks carry no negative delta. Every operation returns; afterwards
  \<open>animation_time \<le> integration_time\<close>; and any further such operation other than
  \<open>reset\<close>, a tick in particular, returns with an animation time that is not smaller
  and still not beyond the integration time.
\<close>

theorem animation_time_bounded_and_monotone:
  assumes "0 \<le> default_speed" and "\<forall>x \<in> set xs. nonneg_input x"
  shows "\<exists>c. run xs (init default_speed critical low) = Inr c
       \<and> animation_time c \<le> integration_time c
       \<and> (\<forall>x. nonneg_input x \<and> x \<noteq> Reset \<longrightarrow>
            (\<exists>c'. step x c = Inr c' \<and> animation_time c \<le> animation_time c'
                \<and> animation_time c' \<le> integration_time c'))"
proof -
  obtain c where c: "run xs (init default_speed critical low) = Inr c" "playback_inv c"
    using playback_inv_run[OF playback_inv_init[OF assms(1)] assms(2)] by blast
  have "\<exists>c'. step x c = Inr c' \<and> animation_time c \<le> animation_time c'
                \<and> animation_time c' \<le> integration_time c'"
    if "nonneg_input x" "x \<noteq> Reset" for x
    using playback_inv_step[OF c(2) that(1)] that(2) by (auto simp: playback_inv_def)
  then show ?thesis using c by (auto simp: playback_inv_def)
qed

theorem animation_time_bounded_and_monotone_witness:
  "\<exists>c. run [AddDataChunk (ArrayChunk [0, 10] [1, 2]), GetNextFrame 1]
          (init 1 100 1000 :: string controller) = Inr c
       \<and> animation_time c \<le> integration_time c"
proof -
  have h1: "(0::real) \<le> 1"
    by simp
  have h2: "\<forall>x \<in> set [AddDataChunk (ArrayChunk [0, 10] [1, 2]), GetNextFrame 1 :: string op].
              nonneg_input x"
    by simp
  show ?thesis
    using animation_time_bounded_and_monotone [OF h1 h2, of 100 1000] by blast
qed

text \<open>
  Claim C1 as stated fails when a buffered time is negative: after
  \<^verbatim>\<open>add_data_chunk(-5.0, 1.0)\<close> on a fresh controller the animation time 0 exceeds the
  integration time -5, and the next tick moves the animation time back from 0 to -5.
\<close>

theorem negative_time_breaks_animation_bound:
  "map_sum id (\<lambda>c. (animation_time c, integration_time c))
     (run [AddDataChunk (ScalarChunk (- 5) 1)] (init 1 100 1000 :: string controller))
     = Inr (0, - 5)
   \<and> map_sum id animation_time
     (run [AddDataChunk (ScalarChunk (- 5) 1), GetNextFrame (1 / 60)]
        (init 1 100 1000 :: string controller))
     = Inr (- 5)"
  by (simp add: eval_defs get_next_frame_def get_speed_factor_def interpolate_biomass_def)

section \<open>Scalar interpolation at a buffered time\<close>

lemma binary64_eval:
  assumes "x \<noteq> 0" "2 powi n \<le> \<bar>x\<bar>" "\<bar>x\<bar> < 2 powi (n + 1)"
  shows "binary64 x = of_int (round_half_even (x / 2 powi (n - 52))) * 2 powi (n - 52)"
proof -
  have p: "(2::real) powr of_int k = 2 powi k" for k
    by (simp add: powr_real_of_int')
  have q: "(2::real) powr (of_int n + 1) = 2 powi (n + 1)"
    using p [of "n + 1"] by simp
  have "\<lfloor>log 2 \<bar>x\<bar>\<rfloor> = n"
    using assms by (subst floor_log_eq_powr_iff) (simp_all add: p q)
  then show ?thesis using assms(1) by (simp add: binary64_def Let_def)
qed

lemma binary64_0: "binary64 0 = 0"
  by (simp add: binary64_def)

lemma binary64_1: "binary64 1 = 1"
  using binary64_eval[of 1 0]
  by (simp add: round_half_even_def Let_def)













text \<open>
  Values of ordinary size show the same: with \<open>3.0\<close>, \<open>0.1\<close> and \<open>0.0\<close> buffered at the
  times 0, 1 and 2 (the float \<open>0.1\<close> is \<open>3602879701896397 / 2^55\<close>), the query at time 1
  computes \<^verbatim>\<open>3.0 + 1.0 * (0.1 - 3.0)\<close>, the float \<open>0.10000000000000009\<close>.
\<close>

lemma binary64_example_difference: "binary64 (- (104483511354995507 / 36028797018963968)) = - (6530219459687219 / 2251799813685248)"
  using binary64_eval[of "- 104483511354995507 / 36028797018963968" 1]
  by (simp add: round_half_even_def Let_def power_int_minus_divide)

lemma binary64_example_product: "binary64 (- (6530219459687219 / 2251799813685248)) = - (6530219459687219 / 2251799813685248)"
  using binary64_eval[of "- 6530219459687219 / 2251799813685248" 1]
  by (simp add: round_half_even_def Let_def power_int_minus_divide)

lemma binary64_example_sum: "binary64 (225179981368525 / 2251799813685248) = 225179981368525 / 2251799813685248"
  using binary64_eval[of "225179981368525 / 2251799813685248" "- 4"]
  by (simp add: round_half_even_def Let_def power_int_minus_divide)

lemma example_inexact_ordinary_values:
  "map_sum id fst
        (interpolate_biomass_rounded binary64 1
           ((init 1 100 1000 :: string controller)
              \<lparr> buffer_times := [0, 1, 2],
                buffer_biomass := [3, 3602879701896397 / 36028797018963968, 0] \<rparr>))
     = Inr (225179981368525 / 2251799813685248)
   \<and> (225179981368525 / 2251799813685248 :: real) \<noteq> 3602879701896397 / 36028797018963968"
  by (simp add: interpolate_biomass_rounded_def Let_def init_def
      bisect_left_def bisect_left_loop.simps binary64_0 binary64_1 binary64_example_difference
      binary64_example_product binary64_example_sum)

section \<open>Playback state\<close>

text \<open>
  Claim C8, as amended. The play/pause state is the two-valued flag \<open>is_playing\<close>.
  An operation that returns leaves the flag as it was unless it is \<open>play\<close> (which sets
  it), \<open>pause\<close> (which clears it) or \<open>reset\<close> (which sets it, as the constructor
  does): buffer insertion, ticks, interpolation queries and speed changes never change it.
\<close>

theorem playback_state_transitions:
  "step x c = Inr c' \<Longrightarrow>
     is_playing c' =
       (case x of Play \<Rightarrow> True | Pause \<Rightarrow> False | Reset \<Rightarrow> True | _ \<Rightarrow> is_playing c)"
  by (cases x)
     (auto simp: add_multi_type_data_chunk_frame play_def pause_def set_speed_def reset_def)

theorem playback_state_transitions_witness:
  "step (SetSpeed 2) (pause (init 1 100 1000 :: string controller))
     = Inr (set_speed 2 (pause (init 1 100 1000)))
   \<and> is_playing (set_speed 2 (pause (init 1 100 1000 :: string controller))) = False"
proof -
  have h: "step (SetSpeed 2) (pause (init 1 100 1000 :: string controller))
             = Inr (set_speed 2 (pause (init 1 100 1000)))"
    by simp
  show ?thesis
    using h playback_state_transitions [OF h] by (simp add: pause_def init_def)
qed

text \<open>
  Claim C8 as stated fails: \<open>reset\<close> on a paused controller resumes playback.
\<close>

theorem reset_changes_playback_state:
  "is_playing (pause (init 1 100 1000 :: string controller)) = False
   \<and> step Reset (pause (init 1 100 1000 :: string controller))
       = Inr (reset (pause (init 1 100 1000)))
   \<and> is_playing (reset (pause (init 1 100 1000 :: string controller))) = True"
  by (simp add: reset_def pause_def init_def)

section \<open>Speed factor\<close>

text \<open>
  Claim C2. With \<open>buffer_critical < buffer_low\<close> and
  \<open>gap = integration_time - animation_time\<close>, the speed factor is \<open>0.1\<close> below the
  critical threshold, the linear ramp
  \<open>0.1 + 0.9 * (gap - buffer_critical) / (buffer_low - buffer_critical)\<close> between the two
  thresholds, and \<open>1\<close> from the low threshold on; with thresholds 100 and 1000 the gaps
  50, 550 and 2000 give 0.1, 0.55 and 1.
\<close>

theorem get_speed_factor_cases:
  assumes "buffer_critical c < buffer_low c"
  shows "(integration_time c - animation_time c < buffer_critical c
            \<longrightarrow> get_speed_factor c = 1 / 10)
       \<and> (buffer_critical c \<le> integration_time c - animation_time c
            \<and> integration_time c - animation_time c < buffer_low c
            \<longrightarrow> get_speed_factor c =
                  1 / 10 + 9 / 10 * ((integration_time c - animation_time c - buffer_critical c)
                                      / (buffer_low c - buffer_critical c)))
       \<and> (buffer_low c \<le> integration_time c - animation_time c
            \<longrightarrow> get_speed_factor c = 1)
       \<and> (buffer_critical c = 100 \<and> buffer_low c = 1000 \<longrightarrow>
            (integration_time c - animation_time c = 50 \<longrightarrow> get_speed_factor c = 1 / 10)
          \<and> (integration_time c - animation_time c = 550 \<longrightarrow> get_speed_factor c = 55 / 100)
          \<and> (integration_time c - animation_time c = 2000 \<longrightarrow> get_speed_factor c = 1))"
  using assms by (simp add: get_speed_factor_def Let_def)

theorem get_speed_factor_cases_witness:
  "get_speed_factor ((init 1 100 1000 :: string controller)\<lparr> integration_time := 550 \<rparr>)
     = 55 / 100"
proof -
  let ?c = "(init 1 100 1000 :: string controller)\<lparr> integration_time := 550 \<rparr>"
  have h: "buffer_critical ?c < buffer_low ?c"
    by (simp add: init_def)
  show ?thesis
    using get_speed_factor_cases [OF h] by (simp add: init_def)
qed

end
